theory Spec2Isabelle
  imports Complex_Main "HOL-Library.Sublist"
begin

section \<open>Data model of the N-object priority governor\<close>

text \<open>
  The development follows the ``Day 6'' program (N governed objects with priority
  buckets). C++ \<^verbatim>\<open>int\<close> values are modelled by \<^typ>\<open>int\<close> (signed overflow is
  undefined behaviour in the source and lies outside the model); \<^verbatim>\<open>float\<close> and
  \<^verbatim>\<open>double\<close> values are modelled by \<^typ>\<open>real\<close>, i.e. finite, non-NaN values
  with exact arithmetic. Indices into the object vector are natural numbers.
\<close>

datatype Priority = Low | Normal | High

record GovObject =
  id_obj :: int
  priority :: Priority
  bias :: real
  biasMin :: real
  biasMax :: real
  visible :: bool
  estMB :: real
  gridX :: int
  gridY :: int

record Governor =
  targetFreeMB :: int
  hysteresisMB :: int
  spikeThreshMB :: int
  stepGradual :: real
  stepSpike :: real
  stepBudgetPerTick :: int
  lastFreeMB :: int
  lastEval :: real
  evalDt :: real
  lastPrint :: real
  globalNudge :: real
  objects :: "GovObject list"
  bucketLow :: "nat list"
  bucketNorm :: "nat list"
  bucketHigh :: "nat list"

text \<open>
  One entry of the mutation journal: an iteration of the loop in \<^verbatim>\<open>applySteps\<close> that
  got past the budget check wrote object \<open>sidx\<close>, adding \<open>sdelta\<close> to the bias
  \<open>sold\<close> and clamping, which left \<open>snew\<close>. The journal is bookkeeping only; the
  program state is the \<^typ>\<open>Governor\<close> record.
\<close>

record Step =
  sidx :: nat
  sdelta :: real
  sold :: real
  snew :: real

section \<open>Bucket construction\<close>

text \<open>
  The loop of \<^verbatim>\<open>rebuildBuckets\<close> visits the indices in ascending order and pushes each
  visible one onto the bucket of its priority.
\<close>

definition collect :: "GovObject list \<Rightarrow> Priority \<Rightarrow> nat list" where
  "collect objs p = filter (\<lambda>i. visible (objs ! i) \<and> priority (objs ! i) = p) [0..<length objs]"

text \<open>
  \<^verbatim>\<open>std::sort\<close> with the comparator \<^verbatim>\<open>objects[a].estMB > objects[b].estMB\<close>. The
  standard leaves the relative order of equivalent elements open; the model is the
  insertion sort of the list library on the negated footprint, which keeps them in
  their previous order.
\<close>

definition sortByEstMB :: "GovObject list \<Rightarrow> nat list \<Rightarrow> nat list" where
  "sortByEstMB objs b = sort_key (\<lambda>i. - estMB (objs ! i)) b"

definition rebuildBuckets :: "Governor \<Rightarrow> Governor" where
  "rebuildBuckets g =
     g\<lparr>bucketLow := sortByEstMB (objects g) (collect (objects g) Low),
       bucketNorm := sortByEstMB (objects g) (collect (objects g) Normal),
       bucketHigh := sortByEstMB (objects g) (collect (objects g) High)\<rparr>"

section \<open>Budgeted stepping\<close>

text \<open>\<^verbatim>\<open>std::clamp(o.bias, o.biasMin, o.biasMax)\<close>: below the lower bound first.\<close>

definition clampObj :: "GovObject \<Rightarrow> GovObject" where
  "clampObj ob =
     ob\<lparr>bias := (if bias ob < biasMin ob then biasMin ob
                 else if biasMax ob < bias ob then biasMax ob
                 else bias ob)\<rparr>"

fun applySteps :: "nat list \<Rightarrow> real \<Rightarrow> GovObject list \<Rightarrow> int \<Rightarrow> GovObject list \<times> int \<times> Step list" where
  "applySteps [] delta objs budget = (objs, budget, [])"
| "applySteps (idx # rest) delta objs budget =
     (if budget \<le> 0 then (objs, budget, [])
      else
        let ob = objs ! idx;
            old = bias ob;
            ob' = clampObj (ob\<lparr>bias := bias ob + delta\<rparr>);
            budget' = (if bias ob' \<noteq> old then budget - 1 else budget);
            (objs', budget'', tr) = applySteps rest delta (objs[idx := ob']) budget'
        in (objs', budget'', \<lparr>sidx = idx, sdelta = delta, sold = old, snew = bias ob'\<rparr> # tr))"

definition spikeTourniquet :: "Governor \<Rightarrow> Governor \<times> Step list" where
  "spikeTourniquet g =
     (let budget = stepBudgetPerTick g;
          (objs1, budget1, t1) = applySteps (bucketLow g) (stepSpike g) (objects g) budget
      in (g\<lparr>objects := objs1\<rparr>, t1))"

definition escalate :: "Governor \<Rightarrow> Governor \<times> Step list" where
  "escalate g =
     (let budget = stepBudgetPerTick g;
          (objs1, budget1, t1) = applySteps (bucketLow g) (stepGradual g) (objects g) budget;
          (objs2, budget2, t2) = applySteps (bucketNorm g) (stepGradual g) objs1 budget1;
          (objs3, budget3, t3) = applySteps (bucketHigh g) (stepGradual g) objs2 budget2
      in (g\<lparr>objects := objs3\<rparr>, t1 @ t2 @ t3))"

definition deescalate :: "Governor \<Rightarrow> Governor \<times> Step list" where
  "deescalate g =
     (let budget = stepBudgetPerTick g;
          (objs1, budget1, t1) = applySteps (bucketHigh g) (- stepGradual g) (objects g) budget;
          (objs2, budget2, t2) = applySteps (bucketNorm g) (- stepGradual g) objs1 budget1;
          (objs3, budget3, t3) = applySteps (bucketLow g) (- stepGradual g) objs2 budget2
      in (g\<lparr>objects := objs3\<rparr>, t1 @ t2 @ t3))"

definition nudge :: "real \<Rightarrow> Governor \<Rightarrow> Governor" where
  "nudge d g =
     g\<lparr>globalNudge := (let v = globalNudge g + d in if v < - 4 then - 4 else if 4 < v then 4 else v)\<rparr>"

section \<open>The evaluation tick\<close>

definition evaluate :: "real \<Rightarrow> int \<Rightarrow> bool \<Rightarrow> Governor \<Rightarrow> Governor \<times> Step list" where
  "evaluate now freeMB telValid g =
     (if lastFreeMB g < 0 then (g\<lparr>lastFreeMB := freeMB, lastEval := now\<rparr>, [])
      else if now - lastEval g < evalDt g then (g, [])
      else
        let g1 = g\<lparr>lastEval := now\<rparr>;
            delta = freeMB - lastFreeMB g1;
            g2 = g1\<lparr>lastFreeMB := freeMB\<rparr>;
            g3 = rebuildBuckets g2;
            (g4, t1) = (if delta \<le> - spikeThreshMB g3 then spikeTourniquet g3 else (g3, []));
            lo = targetFreeMB g4 - hysteresisMB g4;
            hi = targetFreeMB g4 + hysteresisMB g4;
            (g5, t2) = (if freeMB < lo then escalate g4
                        else if freeMB > hi then deescalate g4
                        else (g4, []));
            g6 = (if now - lastPrint g5 > 0.5 then g5\<lparr>lastPrint := now\<rparr> else g5)
        in (g6, t1 @ t2))"

section \<open>Telemetry, fallback estimate and watchdog\<close>

datatype TelMode = NVX | ATI | FALLBACK

record Telemetry =
  mode :: TelMode
  nvx :: bool
  ati :: bool
  useTelemetry :: bool
  fallbackBaseFreeMB :: int
  padBlocks :: int

text \<open>
  What the driver answers to the free-memory query of the active extension: whether
  \<^verbatim>\<open>glGetError()\<close> reports \<^verbatim>\<open>GL_NO_ERROR\<close> afterwards, and the kilobyte count
  written to \<^verbatim>\<open>kb\<close> (\<^verbatim>\<open>kb[0]\<close> for the ATI query).
\<close>

record GLAnswer =
  glNoError :: bool
  glKb :: int

text \<open>
  The last two lines of \<^verbatim>\<open>readFreeMB\<close>, the fallback estimate with its block size
  of 256 MB.
\<close>

definition fallbackFreeMB :: "Telemetry \<Rightarrow> int" where
  "fallbackFreeMB tel = max 0 (fallbackBaseFreeMB tel - padBlocks tel * 256)"

text \<open>
  \<^verbatim>\<open>kb/1024\<close> is taken only for \<open>kb > 0\<close>, where truncating and flooring division
  agree.
\<close>

definition readFreeMB :: "Telemetry \<Rightarrow> GLAnswer \<Rightarrow> bool \<times> int" where
  "readFreeMB tel hw =
     (if useTelemetry tel then
        (if mode tel = NVX then
           (if glNoError hw \<and> glKb hw > 0 then (True, glKb hw div 1024)
            else (False, fallbackFreeMB tel))
         else if mode tel = ATI then
           (if glNoError hw \<and> glKb hw > 0 then (True, glKb hw div 1024)
            else (False, fallbackFreeMB tel))
         else (False, fallbackFreeMB tel))
      else (False, fallbackFreeMB tel))"

record TelWatchdog =
  lastMB :: int
  noMoves :: int

definition initWatchdog :: TelWatchdog where
  "initWatchdog = \<lparr>lastMB = - 1, noMoves = 0\<rparr>"

text \<open>
  \<^verbatim>\<open>onAllocCheck\<close> works on the globals \<^verbatim>\<open>gTel\<close> and \<^verbatim>\<open>gWatch\<close>; both are passed
  and returned.
\<close>

definition onAllocCheck :: "GLAnswer \<Rightarrow> Telemetry \<times> TelWatchdog \<Rightarrow> Telemetry \<times> TelWatchdog" where
  "onAllocCheck hw s =
     (let tel = fst s; w = snd s;
          (valid, nowMB) = readFreeMB tel hw
      in if \<not> valid then (tel, w)
         else if lastMB w < 0 then (tel, w\<lparr>lastMB := nowMB\<rparr>)
         else
           let delta = lastMB w - nowMB;
               w1 = w\<lparr>lastMB := nowMB\<rparr>
           in if delta < 128 then
                (let w2 = w1\<lparr>noMoves := noMoves w1 + 1\<rparr>
                 in if noMoves w2 \<ge> 2 then (tel\<lparr>useTelemetry := False\<rparr>, w2) else (tel, w2))
              else (tel, w1\<lparr>noMoves := 0\<rparr>))"

fun watchdogRun :: "GLAnswer list \<Rightarrow> Telemetry \<times> TelWatchdog \<Rightarrow> Telemetry \<times> TelWatchdog" where
  "watchdogRun [] s = s"
| "watchdogRun (hw # hws) s = watchdogRun hws (onAllocCheck hw s)"

section \<open>Operator input\<close>

record Pad =
  tex :: nat
  fbo :: nat

record App =
  gTel :: Telemetry
  gWatch :: TelWatchdog
  gGov :: Governor
  gPads :: "Pad list"
  gRunning :: bool

text \<open>
  The keys \<^verbatim>\<open>keyCB\<close> distinguishes. The \<^verbatim>\<open>default\<close> branch frees a pad only when the
  key is \<^verbatim>\<open>GLFW_KEY_B\<close>, which the earlier \<^verbatim>\<open>case GLFW_KEY_B\<close> has already taken, so
  for every other key it does nothing.
\<close>

datatype Key = KEY_ESCAPE | KEY_B | KEY_R | KEY_C | KEY_LEFT_BRACKET | KEY_RIGHT_BRACKET | KEY_OTHER

text \<open>
  \<open>pressed\<close> stands for \<^verbatim>\<open>action\<close> being \<^verbatim>\<open>GLFW_PRESS\<close> or \<^verbatim>\<open>GLFW_REPEAT\<close>; \<open>P\<close>
  is the pad \<^verbatim>\<open>createCommittedPad\<close> returns and \<open>hw\<close> the driver's answer to the
  watchdog's query.
\<close>

definition keyCB :: "Key \<Rightarrow> bool \<Rightarrow> Pad \<Rightarrow> GLAnswer \<Rightarrow> App \<Rightarrow> App" where
  "keyCB key pressed P hw app =
     (if \<not> pressed then app
      else case key of
        KEY_ESCAPE \<Rightarrow> app\<lparr>gRunning := False\<rparr>
      | KEY_B \<Rightarrow>
          (let pads = gPads app @ [P];
               tel = (gTel app)\<lparr>padBlocks := int (length pads)\<rparr>;
               (tel', w') = onAllocCheck hw (tel, gWatch app)
           in app\<lparr>gPads := pads, gTel := tel', gWatch := w'\<rparr>)
      | KEY_R \<Rightarrow>
          app\<lparr>gPads := [],
              gTel := (gTel app)\<lparr>padBlocks := 0\<rparr>,
              gGov := (gGov app)\<lparr>objects := map (\<lambda>ob. ob\<lparr>bias := 0\<rparr>) (objects (gGov app))\<rparr>\<rparr>
      | KEY_C \<Rightarrow> app\<lparr>gTel := (gTel app)\<lparr>useTelemetry := \<not> useTelemetry (gTel app)\<rparr>\<rparr>
      | KEY_LEFT_BRACKET \<Rightarrow> app\<lparr>gGov := nudge (- 0.125) (gGov app)\<rparr>
      | KEY_RIGHT_BRACKET \<Rightarrow> app\<lparr>gGov := nudge 0.125 (gGov app)\<rparr>
      | KEY_OTHER \<Rightarrow> app)"

text \<open>
  One pass of the main loop as far as the governor is concerned: read the signal, then
  evaluate.
\<close>

definition frame :: "real \<Rightarrow> GLAnswer \<Rightarrow> App \<Rightarrow> App" where
  "frame t hw app =
     (let (valid, freeMB) = readFreeMB (gTel app) hw
      in app\<lparr>gGov := fst (evaluate t freeMB valid (gGov app))\<rparr>)"

section \<open>The demo configuration\<close>

definition addObj :: "int \<Rightarrow> Priority \<Rightarrow> int \<Rightarrow> int \<Rightarrow> real \<Rightarrow> GovObject" where
  "addObj i pr gx gy est =
     \<lparr>id_obj = i, priority = pr, bias = 0, biasMin = 0, biasMax = 8,
      visible = True, estMB = est, gridX = gx, gridY = gy\<rparr>"

definition demoObjects :: "GovObject list" where
  "demoObjects =
     [addObj 0 Low 0 0 200, addObj 1 Low 1 0 150, addObj 2 Normal 2 0 180,
      addObj 3 Normal 0 1 120, addObj 4 High 1 1 220, addObj 5 High 2 1 100]"

text \<open>The governor with its default member initialisers and a given object vector.\<close>

definition defaultGovernor :: "GovObject list \<Rightarrow> Governor" where
  "defaultGovernor objs =
     \<lparr>targetFreeMB = 1024, hysteresisMB = 128, spikeThreshMB = 256,
      stepGradual = 0.5, stepSpike = 1.25, stepBudgetPerTick = 4,
      lastFreeMB = - 1, lastEval = 0, evalDt = 0.25, lastPrint = 0,
      globalNudge = 0, objects = objs,
      bucketLow = [], bucketNorm = [], bucketHigh = []\<rparr>"

section \<open>Notions used in the properties\<close>

text \<open>
  A journal entry is effective when the write changed the value; this is the test
  \<^verbatim>\<open>o.bias != old\<close> that decrements the budget.
\<close>

definition effective :: "Step \<Rightarrow> bool" where
  "effective e = (snew e \<noteq> sold e)"

text \<open>The invariant of a managed object.\<close>

definition inBounds :: "GovObject \<Rightarrow> bool" where
  "inBounds ob = (biasMin ob \<le> bias ob \<and> bias ob \<le> biasMax ob)"

text \<open>
  Everything of an object but its bias; \<open>stepped\<close> is the body of the loop of
  \<^verbatim>\<open>applySteps\<close> on one object and \<open>spend\<close> what it does to the budget.
\<close>

definition static :: "GovObject \<Rightarrow> GovObject" where
  "static ob = ob\<lparr>bias := 0\<rparr>"

definition stepped :: "real \<Rightarrow> GovObject \<Rightarrow> GovObject" where
  "stepped d ob = clampObj (ob\<lparr>bias := bias ob + d\<rparr>)"

definition spend :: "real \<Rightarrow> GovObject \<Rightarrow> int \<Rightarrow> int" where
  "spend d ob n = (if bias (stepped d ob) \<noteq> bias ob then n - 1 else n)"

text \<open>
  The tick gets past the first-sample and rate-limit returns of \<^verbatim>\<open>evaluate\<close>.
\<close>

definition executes :: "real \<Rightarrow> Governor \<Rightarrow> bool" where
  "executes now g = (\<not> lastFreeMB g < 0 \<and> \<not> now - lastEval g < evalDt g)"

text \<open>
  The order the specification asks of a bucket: larger footprint first, equal
  footprints by ascending id. It is stated over object indices, as the buckets are.
\<close>

definition spec_bucketOrder :: "GovObject list \<Rightarrow> nat \<Rightarrow> nat \<Rightarrow> bool" where
  "spec_bucketOrder objs a b =
     (estMB (objs ! a) > estMB (objs ! b)
      \<or> (estMB (objs ! a) = estMB (objs ! b) \<and> id_obj (objs ! a) < id_obj (objs ! b)))"

text \<open>
  A telemetry object as \<^verbatim>\<open>init\<close> leaves it on a driver with the NVX extension,
  with a fallback baseline of 6000 MB, and the application state at start-up with the
  demo objects registered.
\<close>

definition demoTel :: Telemetry where
  "demoTel = \<lparr>mode = NVX, nvx = True, ati = False, useTelemetry = True,
               fallbackBaseFreeMB = 6000, padBlocks = 0\<rparr>"

definition initApp :: App where
  "initApp =
     \<lparr>gTel = demoTel, gWatch = initWatchdog, gGov = defaultGovernor demoObjects,
      gPads = [], gRunning = True\<rparr>"

text \<open>A driver whose counter is stuck at 4000 MB.\<close>

definition frozenGL :: GLAnswer where
  "frozenGL = \<lparr>glNoError = True, glKb = 4096000\<rparr>"

text \<open>
  Auxiliary notions for the proofs. \<open>threeSteps\<close> is three calls of
  \<^verbatim>\<open>applySteps\<close> in a row on one budget, as in \<^verbatim>\<open>escalate\<close> and
  \<^verbatim>\<open>deescalate\<close>, keeping the three journals apart; \<open>phase\<close> runs it on a
  governor with the budget reset to \<open>stepBudgetPerTick\<close>. \<open>spikePart\<close> and
  \<open>bandPart\<close> are the two conditionals in the body of \<^verbatim>\<open>evaluate\<close>.
\<close>

definition threeSteps ::
  "nat list \<Rightarrow> nat list \<Rightarrow> nat list \<Rightarrow> real \<Rightarrow> GovObject list \<Rightarrow> int
     \<Rightarrow> GovObject list \<times> Step list \<times> Step list \<times> Step list" where
  "threeSteps b1 b2 b3 d objs n =
     (let r1 = applySteps b1 d objs n;
          r2 = applySteps b2 d (fst r1) (fst (snd r1));
          r3 = applySteps b3 d (fst r2) (fst (snd r2))
      in (fst r3, snd (snd r1), snd (snd r2), snd (snd r3)))"

definition wellFormed :: "GovObject list \<Rightarrow> bool" where
  "wellFormed objs = (\<forall>ob\<in>set objs. biasMin ob \<le> biasMax ob)"

definition clampTo :: "GovObject \<Rightarrow> real \<Rightarrow> real" where
  "clampTo ob v = (if v < biasMin ob then biasMin ob else if biasMax ob < v then biasMax ob else v)"

definition journal3 :: "GovObject list \<times> Step list \<times> Step list \<times> Step list \<Rightarrow> Step list" where
  "journal3 r = fst (snd r) @ fst (snd (snd r)) @ snd (snd (snd r))"

definition phase :: "nat list \<Rightarrow> nat list \<Rightarrow> nat list \<Rightarrow> real \<Rightarrow> Governor \<Rightarrow> Governor \<times> Step list" where
  "phase b1 b2 b3 d g =
     (g\<lparr>objects := fst (threeSteps b1 b2 b3 d (objects g) (stepBudgetPerTick g))\<rparr>,
      journal3 (threeSteps b1 b2 b3 d (objects g) (stepBudgetPerTick g)))"

definition spikePart :: "int \<Rightarrow> Governor \<Rightarrow> Governor \<times> Step list" where
  "spikePart delta g = (if delta \<le> - spikeThreshMB g then spikeTourniquet g else (g, []))"

definition bandPart :: "int \<Rightarrow> Governor \<Rightarrow> Governor \<times> Step list" where
  "bandPart freeMB g =
     (if freeMB < targetFreeMB g - hysteresisMB g then escalate g
      else if freeMB > targetFreeMB g + hysteresisMB g then deescalate g
      else (g, []))"

definition bucketsOf :: "Governor \<Rightarrow> nat set" where
  "bucketsOf g = set (bucketLow g) \<union> set (bucketNorm g) \<union> set (bucketHigh g)"

definition visibleIdx :: "GovObject list \<Rightarrow> nat set" where
  "visibleIdx objs = {i. i < length objs \<and> visible (objs ! i)}"

text \<open>
  The governor of the demo after its first tick at 1024 MB free, which only records
  the reading; and the same with object 1 hidden.
\<close>

definition runningGov :: Governor where
  "runningGov = fst (evaluate 0 1024 True (defaultGovernor demoObjects))"

definition hiddenObjects :: "GovObject list" where
  "hiddenObjects = demoObjects[1 := (demoObjects ! 1)\<lparr>visible := False\<rparr>]"

definition hiddenGov :: Governor where
  "hiddenGov = fst (evaluate 0 1024 True (defaultGovernor hiddenObjects))"

text \<open>
  The demo with the two Low objects one unit below their upper bound, again after a
  first tick at 1024 MB; and the number of positions at which two object vectors
  differ in their bias.
\<close>

definition nearMaxObjects :: "GovObject list" where
  "nearMaxObjects =
     demoObjects[0 := (demoObjects ! 0)\<lparr>bias := 7\<rparr>, 1 := (demoObjects ! 1)\<lparr>bias := 7\<rparr>]"

definition nearMaxGov :: Governor where
  "nearMaxGov = fst (evaluate 0 1024 True (defaultGovernor nearMaxObjects))"

definition changedObjects :: "GovObject list \<Rightarrow> GovObject list \<Rightarrow> nat" where
  "changedObjects before after =
     length (filter (\<lambda>p. bias (fst p) \<noteq> bias (snd p)) (zip before after))"

text \<open>
  Two Low objects with the same footprint, registered with ids 5 and 3 in that order.
\<close>

definition tieObjects :: "GovObject list" where
  "tieObjects = [addObj 5 Low 0 0 64, addObj 3 Low 1 0 64]"

text \<open>The journal of the spike path of a tick: empty unless the spike condition holds.\<close>

definition spikeJournal :: "int \<Rightarrow> Governor \<Rightarrow> Step list" where
  "spikeJournal freeMB g =
     (if freeMB - lastFreeMB g \<le> - spikeThreshMB g then snd (spikeTourniquet (rebuildBuckets g)) else [])"

text \<open>
  The journal as a record of what happened to the objects. \<open>replay\<close> performs the
  writes of a journal on an object vector: entry by entry, the object at \<open>sidx\<close> gets
  the bias \<open>snew\<close>. \<open>logged\<close> says that every entry is a step of the stepping loop on
  the vector as the entries before it left it: \<open>sold\<close> is the bias found there and
  \<open>snew\<close> is \<open>sold + sdelta\<close> clamped to the object's bounds.
\<close>

fun replay :: "Step list \<Rightarrow> GovObject list \<Rightarrow> GovObject list" where
  "replay [] objs = objs"
| "replay (e # es) objs = replay es (objs[sidx e := (objs ! sidx e)\<lparr>bias := snew e\<rparr>])"

fun logged :: "Step list \<Rightarrow> GovObject list \<Rightarrow> bool" where
  "logged [] objs = True"
| "logged (e # es) objs =
     (sold e = bias (objs ! sidx e)
      \<and> snew e = clampTo (objs ! sidx e) (sold e + sdelta e)
      \<and> logged es (objs[sidx e := (objs ! sidx e)\<lparr>bias := snew e\<rparr>]))"

text \<open>
  The demo with every bias at 4, after a first tick at 1024 MB; and the demo after a
  first tick at 1400 MB.
\<close>

definition midObjects :: "GovObject list" where
  "midObjects = map (\<lambda>ob. ob\<lparr>bias := 4\<rparr>) demoObjects"

definition midGov :: Governor where
  "midGov = fst (evaluate 0 1024 True (defaultGovernor midObjects))"

definition spikeOnlyGov :: Governor where
  "spikeOnlyGov = fst (evaluate 0 1400 True (defaultGovernor demoObjects))"

section \<open>Properties of the stepping loop\<close>

lemma applySteps_Cons:
  "applySteps (idx # rest) d objs n =
     (if n \<le> 0 then (objs, n, [])
      else (fst (applySteps rest d (objs[idx := stepped d (objs ! idx)]) (spend d (objs ! idx) n)),
            fst (snd (applySteps rest d (objs[idx := stepped d (objs ! idx)]) (spend d (objs ! idx) n))),
            \<lparr>sidx = idx, sdelta = d, sold = bias (objs ! idx), snew = bias (stepped d (objs ! idx))\<rparr>
              # snd (snd (applySteps rest d (objs[idx := stepped d (objs ! idx)]) (spend d (objs ! idx) n)))))"
  by (simp add: Let_def stepped_def spend_def split: prod.splits)

lemma static_stepped: "static (stepped d ob) = static ob"
  by (simp add: static_def stepped_def clampObj_def)

lemma static_fields:
  assumes "static a = static b"
  shows "biasMin a = biasMin b" "biasMax a = biasMax b" "priority a = priority b"
    "visible a = visible b" "estMB a = estMB b" "id_obj a = id_obj b"
proof -
  have "biasMin (static a) = biasMin (static b)" "biasMax (static a) = biasMax (static b)"
    "priority (static a) = priority (static b)" "visible (static a) = visible (static b)"
    "estMB (static a) = estMB (static b)" "id_obj (static a) = id_obj (static b)"
    using assms by simp_all
  then show "biasMin a = biasMin b" "biasMax a = biasMax b" "priority a = priority b"
    "visible a = visible b" "estMB a = estMB b" "id_obj a = id_obj b"
    by (simp_all add: static_def)
qed

lemma stepped_inBounds: "biasMin ob \<le> biasMax ob \<Longrightarrow> inBounds (stepped d ob)"
  by (simp add: inBounds_def stepped_def clampObj_def)

lemma map_static_update:
  "map static (objs[idx := stepped d (objs ! idx)]) = map static objs"
proof (rule nth_equalityI)
  show "length (map static (objs[idx := stepped d (objs ! idx)])) = length (map static objs)"
    by simp
next
  fix i
  assume "i < length (map static (objs[idx := stepped d (objs ! idx)]))"
  then have i: "i < length objs" by simp
  show "map static (objs[idx := stepped d (objs ! idx)]) ! i = map static objs ! i"
  proof (cases "i = idx")
    case True
    with i show ?thesis by (simp add: static_stepped)
  next
    case False
    with i show ?thesis by simp
  qed
qed

lemma applySteps_length:
  "length (fst (applySteps b d objs n)) = length objs"
  by (induction b arbitrary: objs n) (simp_all add: applySteps_Cons del: applySteps.simps(2))

lemma applySteps_static:
  "map static (fst (applySteps b d objs n)) = map static objs"
  by (induction b arbitrary: objs n)
     (simp_all add: applySteps_Cons map_static_update del: applySteps.simps(2))

lemma applySteps_untouched:
  "i \<notin> set b \<Longrightarrow> fst (applySteps b d objs n) ! i = objs ! i"
  by (induction b arbitrary: objs n)
     (simp_all add: applySteps_Cons del: applySteps.simps(2))

lemma applySteps_sdelta:
  "e \<in> set (snd (snd (applySteps b d objs n))) \<Longrightarrow> sdelta e = d"
  by (induction b arbitrary: objs n)
     (auto simp add: applySteps_Cons simp del: applySteps.simps(2) split: if_splits)

lemma applySteps_prefix:
  "prefix (map sidx (snd (snd (applySteps b d objs n)))) b"
  by (induction b arbitrary: objs n)
     (simp_all add: applySteps_Cons del: applySteps.simps(2))

lemma spend_ge: "n - 1 \<le> spend d ob n"
  by (simp add: spend_def)

lemma spend_le: "spend d ob n \<le> n"
  by (simp add: spend_def)

lemma applySteps_all:
  "int (length b) \<le> n \<Longrightarrow> map sidx (snd (snd (applySteps b d objs n))) = b"
proof (induction b arbitrary: objs n)
  case Nil
  then show ?case by simp
next
  case (Cons idx rest)
  have "int (length rest) \<le> spend d (objs ! idx) n"
    using Cons.prems spend_ge [of n d "objs ! idx"] by simp
  with Cons show ?case
    by (simp add: applySteps_Cons del: applySteps.simps(2))
qed

lemma effective_Step [simp]:
  "effective \<lparr>sidx = i, sdelta = d, sold = a, snew = b\<rparr> \<longleftrightarrow> b \<noteq> a"
  by (simp add: effective_def)

lemma applySteps_effective:
  "length (filter effective (snd (snd (applySteps b d objs n)))) \<le> nat n"
proof (induction b arbitrary: objs n)
  case Nil
  then show ?case by simp
next
  case (Cons idx rest)
  show ?case
  proof (cases "n \<le> 0")
    case True
    then show ?thesis by (simp add: applySteps_Cons del: applySteps.simps(2))
  next
    case False
    let ?n' = "spend d (objs ! idx) n"
    let ?objs' = "objs[idx := stepped d (objs ! idx)]"
    have ih: "length (filter effective (snd (snd (applySteps rest d ?objs' ?n')))) \<le> nat ?n'"
      by (rule Cons.IH)
    show ?thesis
    proof (cases "bias (stepped d (objs ! idx)) \<noteq> bias (objs ! idx)")
      case True
      then have "?n' = n - 1" by (simp add: spend_def)
      with ih \<open>\<not> n \<le> 0\<close> True show ?thesis
        by (simp add: applySteps_Cons del: applySteps.simps(2))
    next
      case False
      then have "?n' = n" by (simp add: spend_def)
      with ih False \<open>\<not> n \<le> 0\<close> show ?thesis
        by (simp add: applySteps_Cons del: applySteps.simps(2))
    qed
  qed
qed

lemma applySteps_budget:
  "0 \<le> n \<Longrightarrow> fst (snd (applySteps b d objs n)) =
      n - int (length (filter effective (snd (snd (applySteps b d objs n)))))"
proof (induction b arbitrary: objs n)
  case Nil
  then show ?case by simp
next
  case (Cons idx rest)
  show ?case
  proof (cases "n \<le> 0")
    case True
    then show ?thesis by (simp add: applySteps_Cons del: applySteps.simps(2))
  next
    case False
    then have "0 \<le> spend d (objs ! idx) n" using spend_ge [of n d "objs ! idx"] by simp
    from Cons.IH [OF this] False show ?thesis
      by (simp add: applySteps_Cons spend_def del: applySteps.simps(2))
  qed
qed

lemma applySteps_snew_bounds:
  assumes "\<forall>ob\<in>set objs. biasMin ob \<le> biasMax ob" and "set b \<subseteq> {..<length objs}"
    and "e \<in> set (snd (snd (applySteps b d objs n)))"
  shows "biasMin (objs ! sidx e) \<le> snew e \<and> snew e \<le> biasMax (objs ! sidx e)"
  using assms
proof (induction b arbitrary: objs n)
  case Nil
  then show ?case by simp
next
  case (Cons idx rest)
  let ?objs' = "objs[idx := stepped d (objs ! idx)]"
  let ?n' = "spend d (objs ! idx) n"
  from Cons.prems have idx: "idx < length objs" and wf: "biasMin (objs ! idx) \<le> biasMax (objs ! idx)"
    by simp_all
  have st: "map static ?objs' = map static objs" by (rule map_static_update)
  from Cons.prems(3) have nz: "\<not> n \<le> 0"
    by (auto simp add: applySteps_Cons simp del: applySteps.simps(2) split: if_splits)
  from Cons.prems(3) nz consider
    (hd) "e = \<lparr>sidx = idx, sdelta = d, sold = bias (objs ! idx), snew = bias (stepped d (objs ! idx))\<rparr>"
    | (tl) "e \<in> set (snd (snd (applySteps rest d ?objs' ?n')))"
    by (auto simp add: applySteps_Cons simp del: applySteps.simps(2))
  then show ?case
  proof cases
    case hd
    have "inBounds (stepped d (objs ! idx))" using wf by (rule stepped_inBounds)
    moreover have "biasMin (stepped d (objs ! idx)) = biasMin (objs ! idx)"
      "biasMax (stepped d (objs ! idx)) = biasMax (objs ! idx)"
      using static_fields [OF static_stepped] by simp_all
    ultimately show ?thesis using hd by (simp add: inBounds_def)
  next
    case tl
    have wf': "\<forall>ob\<in>set ?objs'. biasMin ob \<le> biasMax ob"
    proof
      fix ob assume "ob \<in> set ?objs'"
      then have "ob \<in> insert (stepped d (objs ! idx)) (set objs)"
        using set_update_subset_insert by fastforce
      moreover have "biasMin (stepped d (objs ! idx)) \<le> biasMax (stepped d (objs ! idx))"
        using static_fields [OF static_stepped, of d "objs ! idx"] wf by simp
      ultimately show "biasMin ob \<le> biasMax ob" using Cons.prems(1) by auto
    qed
    have sub: "set rest \<subseteq> {..<length ?objs'}" using Cons.prems(2) by simp
    have ih: "biasMin (?objs' ! sidx e) \<le> snew e \<and> snew e \<le> biasMax (?objs' ! sidx e)"
      by (rule Cons.IH [OF wf' sub tl])
    have "sidx e \<in> set rest"
      using tl applySteps_prefix [of rest d ?objs' ?n'] by (auto dest!: set_mono_prefix)
    then have lt: "sidx e < length objs" using Cons.prems(2) by auto
    have "static (?objs' ! sidx e) = static (objs ! sidx e)"
      using st lt by (metis length_list_update nth_map)
    from static_fields(1,2) [OF this] ih show ?thesis by simp
  qed
qed

lemma applySteps_inBounds:
  assumes "\<forall>ob\<in>set objs. inBounds ob"
  shows "\<forall>ob\<in>set (fst (applySteps b d objs n)). inBounds ob"
  using assms
proof (induction b arbitrary: objs n)
  case Nil
  then show ?case by simp
next
  case (Cons idx rest)
  show ?case
  proof (cases "n \<le> 0")
    case True
    with Cons.prems show ?thesis by (simp add: applySteps_Cons del: applySteps.simps(2))
  next
    case False
    let ?objs' = "objs[idx := stepped d (objs ! idx)]"
    have "\<forall>ob\<in>set ?objs'. inBounds ob"
    proof (cases "idx < length objs")
      case True
      then have "inBounds (objs ! idx)" using Cons.prems by simp
      then have "inBounds (stepped d (objs ! idx))"
        by (intro stepped_inBounds) (simp add: inBounds_def)
      then show ?thesis using Cons.prems set_update_subset_insert [of objs idx] by fastforce
    next
      case False
      then show ?thesis using Cons.prems by (simp add: list_update_beyond)
    qed
    from Cons.IH [OF this] False show ?thesis
      by (simp add: applySteps_Cons del: applySteps.simps(2))
  qed
qed

section \<open>The fallback estimate\<close>

lemma fallbackFreeMB_nonneg: "0 \<le> fallbackFreeMB tel"
  by (simp add: fallbackFreeMB_def)

lemma fallbackFreeMB_mono:
  "b1 \<le> b2 \<Longrightarrow> fallbackFreeMB (tel\<lparr>padBlocks := b2\<rparr>) \<le> fallbackFreeMB (tel\<lparr>padBlocks := b1\<rparr>)"
  by (simp add: fallbackFreeMB_def)

lemma readFreeMB_invalid:
  "\<not> fst (readFreeMB tel hw) \<Longrightarrow> snd (readFreeMB tel hw) = fallbackFreeMB tel"
  by (auto simp add: readFreeMB_def split: if_splits)

lemma readFreeMB_disabled:
  "\<not> useTelemetry tel \<Longrightarrow> readFreeMB tel hw = (False, fallbackFreeMB tel)"
  by (simp add: readFreeMB_def)

text \<open>
  Claim C9. Whenever \<^verbatim>\<open>readFreeMB\<close> reports an invalid (fallback) reading, and in
  particular whenever hardware telemetry is switched off, the value it returns is
  \<open>max 0 (fallbackBaseFreeMB - padBlocks * 256)\<close>, with the fixed block size 256. This
  estimate is never negative, and for a fixed baseline it does not increase when the
  number of committed blocks grows; so neither does the reading returned with
  telemetry switched off.
\<close>

theorem fallback_estimate:
  "(\<not> fst (readFreeMB tel hw) \<longrightarrow>
      snd (readFreeMB tel hw) = max 0 (fallbackBaseFreeMB tel - padBlocks tel * 256))
   \<and> (\<not> useTelemetry tel \<longrightarrow> \<not> fst (readFreeMB tel hw))
   \<and> (\<not> useTelemetry tel \<and> b1 \<le> b2 \<longrightarrow>
        snd (readFreeMB (tel\<lparr>padBlocks := b2\<rparr>) hw) \<le> snd (readFreeMB (tel\<lparr>padBlocks := b1\<rparr>) hw))
   \<and> 0 \<le> fallbackFreeMB tel
   \<and> (b1 \<le> b2 \<longrightarrow>
        fallbackFreeMB (tel\<lparr>padBlocks := b2\<rparr>) \<le> fallbackFreeMB (tel\<lparr>padBlocks := b1\<rparr>))"
proof -
  have "\<not> fst (readFreeMB tel hw) \<longrightarrow>
      snd (readFreeMB tel hw) = max 0 (fallbackBaseFreeMB tel - padBlocks tel * 256)"
    using readFreeMB_invalid [of tel hw] by (simp add: fallbackFreeMB_def)
  moreover have "\<not> useTelemetry tel \<longrightarrow> \<not> fst (readFreeMB tel hw)"
    by (simp add: readFreeMB_disabled)
  moreover have "\<not> useTelemetry tel \<and> b1 \<le> b2 \<longrightarrow>
        snd (readFreeMB (tel\<lparr>padBlocks := b2\<rparr>) hw) \<le> snd (readFreeMB (tel\<lparr>padBlocks := b1\<rparr>) hw)"
    using fallbackFreeMB_mono [of b1 b2 tel] by (simp add: readFreeMB_disabled)
  ultimately show ?thesis
    using fallbackFreeMB_nonneg [of tel] fallbackFreeMB_mono [of b1 b2 tel] by blast
qed

theorem fallback_estimate_witness:
  "\<not> fst (readFreeMB (demoTel\<lparr>useTelemetry := False, padBlocks := 3\<rparr>) frozenGL)
   \<and> snd (readFreeMB (demoTel\<lparr>useTelemetry := False, padBlocks := 3\<rparr>) frozenGL) = 5232
   \<and> \<not> useTelemetry (demoTel\<lparr>useTelemetry := False, padBlocks := 3\<rparr>)
   \<and> (3::int) \<le> 30
   \<and> snd (readFreeMB (demoTel\<lparr>useTelemetry := False, padBlocks := 30\<rparr>) frozenGL)
       \<le> snd (readFreeMB (demoTel\<lparr>useTelemetry := False, padBlocks := 3\<rparr>) frozenGL)
   \<and> fallbackFreeMB (demoTel\<lparr>useTelemetry := False, padBlocks := 30\<rparr>)
       \<le> fallbackFreeMB (demoTel\<lparr>useTelemetry := False, padBlocks := 3\<rparr>)"
proof -
  let ?tel = "demoTel\<lparr>useTelemetry := False, padBlocks := 3\<rparr>"
  have off: "\<not> useTelemetry ?tel" and le: "(3::int) \<le> 30" by simp_all
  have u: "?tel\<lparr>padBlocks := 30\<rparr> = demoTel\<lparr>useTelemetry := False, padBlocks := 30\<rparr>"
    "?tel\<lparr>padBlocks := 3\<rparr> = ?tel"
    by simp_all
  note th = fallback_estimate [of ?tel frozenGL 3 30, unfolded u]
  from th off have inv: "\<not> fst (readFreeMB ?tel frozenGL)" by blast
  with th have "snd (readFreeMB ?tel frozenGL) = max 0 (fallbackBaseFreeMB ?tel - padBlocks ?tel * 256)"
    by blast
  then have val: "snd (readFreeMB ?tel frozenGL) = 5232" by (simp add: demoTel_def)
  from th off le inv val show ?thesis by blast
qed

section \<open>The watchdog\<close>

lemma onAllocCheck_disabled:
  "\<not> useTelemetry (fst s) \<Longrightarrow> onAllocCheck hw s = s"
  by (simp add: onAllocCheck_def readFreeMB_disabled)

lemma watchdogRun_disabled:
  "\<not> useTelemetry (fst s) \<Longrightarrow> watchdogRun hws s = s"
  by (induction hws arbitrary: s) (simp_all add: onAllocCheck_disabled)

lemma readFreeMB_valid:
  "useTelemetry tel \<Longrightarrow> mode tel \<noteq> FALLBACK \<Longrightarrow> glNoError hw \<Longrightarrow> 0 < glKb hw \<Longrightarrow>
     readFreeMB tel hw = (True, glKb hw div 1024)"
  by (cases "mode tel") (simp_all add: readFreeMB_def)

lemma onAllocCheck_stall:
  assumes "useTelemetry tel" "mode tel \<noteq> FALLBACK" "glNoError hw" "0 < glKb hw"
    and "0 \<le> lastMB w" and "lastMB w - glKb hw div 1024 < 128"
  shows "onAllocCheck hw (tel, w) =
           (tel\<lparr>useTelemetry := \<not> 2 \<le> noMoves w + 1\<rparr>,
            \<lparr>lastMB = glKb hw div 1024, noMoves = noMoves w + 1\<rparr>)"
  using assms by (simp add: onAllocCheck_def readFreeMB_valid Let_def)

lemma onAllocCheck_noMoves_nonneg:
  "0 \<le> noMoves (snd s) \<Longrightarrow> 0 \<le> noMoves (snd (onAllocCheck hw s))"
  by (simp add: onAllocCheck_def Let_def split: prod.splits)

lemma watchdogRun_noMoves_nonneg:
  "0 \<le> noMoves (snd s) \<Longrightarrow> 0 \<le> noMoves (snd (watchdogRun hws s))"
  by (induction hws arbitrary: s) (simp_all add: onAllocCheck_noMoves_nonneg)

lemma initWatchdog_noMoves: "0 \<le> noMoves (snd (watchdogRun hws (tel, initWatchdog)))"
  by (rule watchdogRun_noMoves_nonneg) (simp add: initWatchdog_def)

text \<open>
  From start-up the first check only records the reading: on a frozen counter the
  third allocation check is the one that switches telemetry off.
\<close>

lemma watchdog_from_start:
  "useTelemetry (fst (watchdogRun [frozenGL, frozenGL] (demoTel, initWatchdog)))
   \<and> \<not> useTelemetry (fst (watchdogRun [frozenGL, frozenGL, frozenGL] (demoTel, initWatchdog)))"
  by (simp add: onAllocCheck_def readFreeMB_def demoTel_def frozenGL_def initWatchdog_def Let_def)

lemma onAllocCheck_never_enables:
  "useTelemetry (fst (onAllocCheck hw s)) \<Longrightarrow> useTelemetry (fst s)"
  by (simp add: onAllocCheck_def Let_def split: prod.splits if_splits)

lemma keyCB_keeps_disabled:
  assumes "\<not> useTelemetry (gTel app)" and "key \<noteq> KEY_C"
  shows "\<not> useTelemetry (gTel (keyCB key pressed P hw app))"
proof (cases key)
  case KEY_B
  have "\<not> useTelemetry (fst (onAllocCheck hw ((gTel app)\<lparr>padBlocks := int (length (gPads app @ [P]))\<rparr>, gWatch app)))"
    using assms(1) onAllocCheck_never_enables by fastforce
  with KEY_B assms show ?thesis
    by (simp add: keyCB_def Let_def case_prod_beta)
qed (use assms in \<open>simp_all add: keyCB_def\<close>)

lemma frame_gTel: "gTel (frame t hw app) = gTel app"
  by (simp add: frame_def split: prod.splits)

lemma keyCB_toggle:
  "useTelemetry (gTel (keyCB KEY_C True P hw app)) = (\<not> useTelemetry (gTel app))"
  by (simp add: keyCB_def)

text \<open>
  Claim C3. Let hardware telemetry be in use and the watchdog hold a previous reading
  (its stall count is never negative). If two consecutive allocation checks each meet
  a driver answer that is valid and lies less than 128 MB below the reading before it,
  hardware telemetry is switched off after the second check. From then on no sequence
  of further allocation checks switches it on again, whatever the driver would answer;
  neither does a frame of the main loop nor any key other than the toggle key, while
  the toggle key does.
\<close>

theorem watchdog_disables_for_good:
  assumes "useTelemetry tel" and "mode tel \<noteq> FALLBACK"
    and "0 \<le> lastMB w" and "0 \<le> noMoves w"
    and "glNoError h1" and "0 < glKb h1" and "glNoError h2" and "0 < glKb h2"
    and "lastMB w - glKb h1 div 1024 < 128"
    and "glKb h1 div 1024 - glKb h2 div 1024 < 128"
  shows "\<not> useTelemetry (fst (watchdogRun [h1, h2] (tel, w)))
    \<and> (\<forall>hws. \<not> useTelemetry (fst (watchdogRun (h1 # h2 # hws) (tel, w))))
    \<and> (\<forall>app key pressed P hw t. \<not> useTelemetry (gTel app) \<longrightarrow>
          \<not> useTelemetry (gTel (frame t hw app))
          \<and> (key \<noteq> KEY_C \<longrightarrow> \<not> useTelemetry (gTel (keyCB key pressed P hw app)))
          \<and> useTelemetry (gTel (keyCB KEY_C True P hw app)))"
proof -
  let ?s1 = "onAllocCheck h1 (tel, w)"
  have s1: "?s1 = (tel\<lparr>useTelemetry := \<not> 2 \<le> noMoves w + 1\<rparr>,
                   \<lparr>lastMB = glKb h1 div 1024, noMoves = noMoves w + 1\<rparr>)"
    using assms by (intro onAllocCheck_stall) simp_all
  have off2: "\<not> useTelemetry (fst (onAllocCheck h2 ?s1))"
  proof (cases "2 \<le> noMoves w + 1")
    case True
    then have "\<not> useTelemetry (fst ?s1)" by (simp add: s1)
    then show ?thesis by (simp add: onAllocCheck_disabled)
  next
    case False
    have kb: "0 \<le> glKb h1 div 1024" using assms(6) by simp
    have "onAllocCheck h2 (tel\<lparr>useTelemetry := True\<rparr>, \<lparr>lastMB = glKb h1 div 1024, noMoves = noMoves w + 1\<rparr>)
        = ((tel\<lparr>useTelemetry := True\<rparr>)\<lparr>useTelemetry := \<not> 2 \<le> noMoves \<lparr>lastMB = glKb h1 div 1024, noMoves = noMoves w + 1\<rparr> + 1\<rparr>,
            \<lparr>lastMB = glKb h2 div 1024, noMoves = noMoves \<lparr>lastMB = glKb h1 div 1024, noMoves = noMoves w + 1\<rparr> + 1\<rparr>)"
      using assms kb by (intro onAllocCheck_stall) simp_all
    with False assms(4) show ?thesis by (simp add: s1)
  qed
  then have a: "\<not> useTelemetry (fst (watchdogRun [h1, h2] (tel, w)))" by simp
  have b: "\<forall>hws. \<not> useTelemetry (fst (watchdogRun (h1 # h2 # hws) (tel, w)))"
    using off2 by (simp add: watchdogRun_disabled)
  have c: "\<forall>app key pressed P hw t. \<not> useTelemetry (gTel app) \<longrightarrow>
          \<not> useTelemetry (gTel (frame t hw app))
          \<and> (key \<noteq> KEY_C \<longrightarrow> \<not> useTelemetry (gTel (keyCB key pressed P hw app)))
          \<and> useTelemetry (gTel (keyCB KEY_C True P hw app))"
    by (simp add: frame_gTel keyCB_keeps_disabled keyCB_toggle)
  from a b c show ?thesis by blast
qed


theorem watchdog_disables_for_good_witness:
  "useTelemetry demoTel \<and> mode demoTel \<noteq> FALLBACK
   \<and> 0 \<le> lastMB \<lparr>lastMB = 4000, noMoves = 0\<rparr> \<and> 0 \<le> noMoves \<lparr>lastMB = 4000, noMoves = 0\<rparr>
   \<and> glNoError frozenGL \<and> 0 < glKb frozenGL
   \<and> lastMB \<lparr>lastMB = 4000, noMoves = 0\<rparr> - glKb frozenGL div 1024 < 128
   \<and> glKb frozenGL div 1024 - glKb frozenGL div 1024 < 128
   \<and> \<not> useTelemetry (fst (watchdogRun [frozenGL, frozenGL] (demoTel, \<lparr>lastMB = 4000, noMoves = 0\<rparr>)))
   \<and> \<not> useTelemetry (fst (watchdogRun [frozenGL, frozenGL, \<lparr>glNoError = True, glKb = 1024000\<rparr>]
          (demoTel, \<lparr>lastMB = 4000, noMoves = 0\<rparr>)))
   \<and> \<not> useTelemetry (gTel (initApp\<lparr>gTel := demoTel\<lparr>useTelemetry := False\<rparr>\<rparr>))
   \<and> \<not> useTelemetry (gTel (frame 1 frozenGL (initApp\<lparr>gTel := demoTel\<lparr>useTelemetry := False\<rparr>\<rparr>)))
   \<and> \<not> useTelemetry (gTel (keyCB KEY_R True \<lparr>tex = 1, fbo = 1\<rparr> frozenGL
          (initApp\<lparr>gTel := demoTel\<lparr>useTelemetry := False\<rparr>\<rparr>)))
   \<and> useTelemetry (gTel (keyCB KEY_C True \<lparr>tex = 1, fbo = 1\<rparr> frozenGL
          (initApp\<lparr>gTel := demoTel\<lparr>useTelemetry := False\<rparr>\<rparr>)))"
proof -
  let ?off = "initApp\<lparr>gTel := demoTel\<lparr>useTelemetry := False\<rparr>\<rparr>"
  let ?P = "\<lparr>tex = 1, fbo = 1\<rparr>"
  let ?w = "\<lparr>lastMB = 4000, noMoves = 0\<rparr>"
  have h: "useTelemetry demoTel" "mode demoTel \<noteq> FALLBACK" "0 \<le> lastMB ?w" "0 \<le> noMoves ?w"
    "glNoError frozenGL" "0 < glKb frozenGL"
    "lastMB ?w - glKb frozenGL div 1024 < 128"
    "glKb frozenGL div 1024 - glKb frozenGL div 1024 < 128"
    by (simp_all add: demoTel_def frozenGL_def)
  note th = watchdog_disables_for_good [OF h(1-6) h(5,6) h(7,8)]
  from th have "\<not> useTelemetry (fst (watchdogRun [frozenGL, frozenGL] (demoTel, ?w)))"
    by (rule conjunct1)
  moreover from th have "\<not> useTelemetry (fst (watchdogRun
       (frozenGL # frozenGL # [\<lparr>glNoError = True, glKb = 1024000\<rparr>]) (demoTel, ?w)))"
    by blast
  moreover have off: "\<not> useTelemetry (gTel ?off)" by simp
  moreover from th off have "\<not> useTelemetry (gTel (frame 1 frozenGL ?off))" by blast
  moreover have "\<not> useTelemetry (gTel (keyCB KEY_R True ?P frozenGL ?off))"
  proof -
    from th off have "KEY_R \<noteq> KEY_C \<longrightarrow> \<not> useTelemetry (gTel (keyCB KEY_R True ?P frozenGL ?off))"
      by blast
    then show ?thesis by simp
  qed
  moreover from th off have "useTelemetry (gTel (keyCB KEY_C True ?P frozenGL ?off))" by blast
  ultimately show ?thesis using h by blast
qed

section \<open>Reset\<close>

lemma keyCB_reset_bias:
  "map bias (objects (gGov (keyCB KEY_R True P hw app))) = replicate (length (objects (gGov app))) 0"
  by (simp add: keyCB_def map_replicate_const [symmetric] comp_def)

text \<open>
  Claim C5, as the code has it. The reset key, from any state, sets the bias of every
  registered object to 0, clears the committed pads and sets the committed block count
  to 0; it leaves the watchdog's last reading and stall count as they were.
\<close>

theorem reset_effect:
  "map bias (objects (gGov (keyCB KEY_R True P hw app))) = replicate (length (objects (gGov app))) 0
   \<and> length (objects (gGov (keyCB KEY_R True P hw app))) = length (objects (gGov app))
   \<and> padBlocks (gTel (keyCB KEY_R True P hw app)) = 0
   \<and> gPads (keyCB KEY_R True P hw app) = []
   \<and> gWatch (keyCB KEY_R True P hw app) = gWatch app"
  using keyCB_reset_bias [of P hw app] by (simp add: keyCB_def)

text \<open>
  Two allocations on a frozen counter followed by a reset: the watchdog still holds
  the reading of 4000 MB and one stall, not its initial values.
\<close>

theorem reset_keeps_watchdog_counterexample:
  "gWatch (keyCB KEY_R True \<lparr>tex = 3, fbo = 3\<rparr> frozenGL
            (keyCB KEY_B True \<lparr>tex = 2, fbo = 2\<rparr> frozenGL
              (keyCB KEY_B True \<lparr>tex = 1, fbo = 1\<rparr> frozenGL initApp)))
     \<noteq> initWatchdog"
  by (simp add: keyCB_def initApp_def demoTel_def frozenGL_def initWatchdog_def
      onAllocCheck_def readFreeMB_def Let_def)

section \<open>Buckets\<close>

lemma set_collect:
  "set (collect objs p) = {i. i < length objs \<and> visible (objs ! i) \<and> priority (objs ! i) = p}"
  by (auto simp add: collect_def)

lemma set_sortByEstMB: "set (sortByEstMB objs b) = set b"
  by (simp add: sortByEstMB_def)

lemma distinct_sortByEstMB: "distinct (sortByEstMB objs b) = distinct b"
  by (simp add: sortByEstMB_def)

lemma distinct_collect: "distinct (collect objs p)"
  by (simp add: collect_def)

lemma sorted_sortByEstMB:
  "sorted_wrt (\<lambda>a b. estMB (objs ! b) \<le> estMB (objs ! a)) (sortByEstMB objs b)"
proof -
  have "sorted (map (\<lambda>i. - estMB (objs ! i)) (sortByEstMB objs b))"
    unfolding sortByEstMB_def by (rule sorted_sort_key)
  then show ?thesis by (simp add: sorted_map)
qed

lemma rebuildBuckets_fields:
  "objects (rebuildBuckets g) = objects g"
  "stepBudgetPerTick (rebuildBuckets g) = stepBudgetPerTick g"
  "stepSpike (rebuildBuckets g) = stepSpike g"
  "stepGradual (rebuildBuckets g) = stepGradual g"
  "targetFreeMB (rebuildBuckets g) = targetFreeMB g"
  "hysteresisMB (rebuildBuckets g) = hysteresisMB g"
  "spikeThreshMB (rebuildBuckets g) = spikeThreshMB g"
  "lastPrint (rebuildBuckets g) = lastPrint g"
  by (simp_all add: rebuildBuckets_def)

lemma rebuildBuckets_buckets:
  "bucketLow (rebuildBuckets g) = sortByEstMB (objects g) (collect (objects g) Low)"
  "bucketNorm (rebuildBuckets g) = sortByEstMB (objects g) (collect (objects g) Normal)"
  "bucketHigh (rebuildBuckets g) = sortByEstMB (objects g) (collect (objects g) High)"
  by (simp_all add: rebuildBuckets_def)

lemma set_bucket:
  "set (sortByEstMB objs (collect objs p)) =
     {i. i < length objs \<and> visible (objs ! i) \<and> priority (objs ! i) = p}"
  by (simp add: set_sortByEstMB set_collect)

section \<open>More on the stepping loop\<close>

lemma applySteps_nobudget: "n \<le> 0 \<Longrightarrow> applySteps b d objs n = (objs, n, [])"
  by (cases b) simp_all

lemma applySteps_budget_le: "fst (snd (applySteps b d objs n)) \<le> n"
proof (induction b arbitrary: objs n)
  case Nil
  then show ?case by simp
next
  case (Cons idx rest)
  have "fst (snd (applySteps rest d (objs[idx := stepped d (objs ! idx)]) (spend d (objs ! idx) n)))
      \<le> spend d (objs ! idx) n"
    by (rule Cons.IH)
  with spend_le [of d "objs ! idx" n] show ?case
    by (simp add: applySteps_Cons del: applySteps.simps(2))
qed

lemma applySteps_leftover:
  "0 < fst (snd (applySteps b d objs n)) \<Longrightarrow> map sidx (snd (snd (applySteps b d objs n))) = b"
  by (induction b arbitrary: objs n)
     (simp_all add: applySteps_Cons del: applySteps.simps(2) split: if_splits)

lemma applySteps_journal_budget:
  "snd (snd (applySteps b d objs n)) \<noteq> [] \<Longrightarrow> 0 < n"
  using applySteps_nobudget [of n b d objs] by (cases "n \<le> 0") simp_all

lemma applySteps_sidx:
  "e \<in> set (snd (snd (applySteps b d objs n))) \<Longrightarrow> sidx e \<in> set b"
  using applySteps_prefix [of b d objs n] by (auto dest!: set_mono_prefix)

lemma applySteps_sold:
  "distinct b \<Longrightarrow> e \<in> set (snd (snd (applySteps b d objs n))) \<Longrightarrow> sold e = bias (objs ! sidx e)"
proof (induction b arbitrary: objs n)
  case Nil
  then show ?case by simp
next
  case (Cons idx rest)
  let ?objs' = "objs[idx := stepped d (objs ! idx)]"
  let ?n' = "spend d (objs ! idx) n"
  from Cons.prems(2) have nz: "\<not> n \<le> 0"
    by (auto simp add: applySteps_Cons simp del: applySteps.simps(2) split: if_splits)
  from Cons.prems(2) nz consider
    (hd) "e = \<lparr>sidx = idx, sdelta = d, sold = bias (objs ! idx), snew = bias (stepped d (objs ! idx))\<rparr>"
    | (tl) "e \<in> set (snd (snd (applySteps rest d ?objs' ?n')))"
    by (auto simp add: applySteps_Cons simp del: applySteps.simps(2))
  then show ?case
  proof cases
    case hd
    then show ?thesis by simp
  next
    case tl
    from Cons.prems(1) have "distinct rest" and "idx \<notin> set rest" by simp_all
    from Cons.IH [OF \<open>distinct rest\<close> tl] have "sold e = bias (?objs' ! sidx e)" .
    moreover have "sidx e \<noteq> idx" using applySteps_sidx [OF tl] \<open>idx \<notin> set rest\<close> by auto
    ultimately show ?thesis by simp
  qed
qed

lemma static_nth:
  "map static xs = map static ys \<Longrightarrow> i < length ys \<Longrightarrow> static (xs ! i) = static (ys ! i)"
  by (metis length_map nth_map)

lemma wellFormed_static:
  assumes "map static xs = map static ys" and "wellFormed ys"
  shows "wellFormed xs"
  unfolding wellFormed_def
proof
  fix ob assume "ob \<in> set xs"
  then obtain i where i: "i < length xs" and ob: "ob = xs ! i" by (auto simp add: in_set_conv_nth)
  have len: "length xs = length ys" using assms(1) by (metis length_map)
  from static_fields(1,2) [OF static_nth [OF assms(1)], of i] i len
  have "biasMin ob = biasMin (ys ! i)" "biasMax ob = biasMax (ys ! i)" by (simp_all add: ob)
  moreover have "ys ! i \<in> set ys" using i len by simp
  ultimately show "biasMin ob \<le> biasMax ob" using assms(2) by (simp add: wellFormed_def)
qed

lemma applySteps_snew_clamp:
  assumes "set b \<subseteq> {..<length objs}" and "e \<in> set (snd (snd (applySteps b d objs n)))"
  shows "snew e = clampTo (objs ! sidx e) (sold e + d)"
  using assms
proof (induction b arbitrary: objs n)
  case Nil
  then show ?case by simp
next
  case (Cons idx rest)
  let ?objs' = "objs[idx := stepped d (objs ! idx)]"
  let ?n' = "spend d (objs ! idx) n"
  from Cons.prems(2) have nz: "\<not> n \<le> 0"
    by (auto simp add: applySteps_Cons simp del: applySteps.simps(2) split: if_splits)
  from Cons.prems(2) nz consider
    (hd) "e = \<lparr>sidx = idx, sdelta = d, sold = bias (objs ! idx), snew = bias (stepped d (objs ! idx))\<rparr>"
    | (tl) "e \<in> set (snd (snd (applySteps rest d ?objs' ?n')))"
    by (auto simp add: applySteps_Cons simp del: applySteps.simps(2))
  then show ?case
  proof cases
    case hd
    then show ?thesis by (simp add: stepped_def clampObj_def clampTo_def)
  next
    case tl
    have sub: "set rest \<subseteq> {..<length ?objs'}" using Cons.prems(1) by simp
    have ih: "snew e = clampTo (?objs' ! sidx e) (sold e + d)" by (rule Cons.IH [OF sub tl])
    have lt: "sidx e < length objs" using applySteps_sidx [OF tl] Cons.prems(1) by auto
    have "static (?objs' ! sidx e) = static (objs ! sidx e)"
      using static_nth [OF map_static_update lt] .
    from static_fields(1,2) [OF this] ih show ?thesis by (simp add: clampTo_def)
  qed
qed

section \<open>Three buckets in a row\<close>

lemma threeSteps_static:
  "map static (fst (threeSteps b1 b2 b3 d objs n)) = map static objs"
  by (simp add: threeSteps_def Let_def applySteps_static)

lemma threeSteps_length:
  "length (fst (threeSteps b1 b2 b3 d objs n)) = length objs"
  by (simp add: threeSteps_def Let_def applySteps_length)

lemma threeSteps_untouched:
  "i \<notin> set b1 \<union> set b2 \<union> set b3 \<Longrightarrow> fst (threeSteps b1 b2 b3 d objs n) ! i = objs ! i"
  by (simp add: threeSteps_def Let_def applySteps_untouched)

lemma threeSteps_inBounds:
  "\<forall>ob\<in>set objs. inBounds ob \<Longrightarrow> \<forall>ob\<in>set (fst (threeSteps b1 b2 b3 d objs n)). inBounds ob"
  unfolding threeSteps_def Let_def fst_conv
  by (intro applySteps_inBounds)

lemma threeSteps_sidx:
  "e \<in> set (journal3 (threeSteps b1 b2 b3 d objs n)) \<Longrightarrow> sidx e \<in> set b1 \<union> set b2 \<union> set b3"
  by (auto simp add: threeSteps_def journal3_def Let_def dest: applySteps_sidx)

lemma threeSteps_sdelta:
  "e \<in> set (journal3 (threeSteps b1 b2 b3 d objs n)) \<Longrightarrow> sdelta e = d"
  by (auto simp add: threeSteps_def journal3_def Let_def dest: applySteps_sdelta)

lemma threeSteps_snew_bounds:
  assumes wf: "wellFormed objs" and sub: "set b1 \<union> set b2 \<union> set b3 \<subseteq> {..<length objs}"
    and e: "e \<in> set (journal3 (threeSteps b1 b2 b3 d objs n))"
  shows "biasMin (objs ! sidx e) \<le> snew e \<and> snew e \<le> biasMax (objs ! sidx e)"
proof -
  define r1 where "r1 = applySteps b1 d objs n"
  define r2 where "r2 = applySteps b2 d (fst r1) (fst (snd r1))"
  define r3 where "r3 = applySteps b3 d (fst r2) (fst (snd r2))"
  have s1: "map static (fst r1) = map static objs" by (simp add: r1_def applySteps_static)
  have s2: "map static (fst r2) = map static objs" by (simp add: r2_def applySteps_static s1)
  have l1: "length (fst r1) = length objs" by (simp add: r1_def applySteps_length)
  have l2: "length (fst r2) = length objs" by (simp add: r2_def applySteps_length l1)
  have w1: "\<forall>ob\<in>set (fst r1). biasMin ob \<le> biasMax ob"
    using wellFormed_static [OF s1 wf] by (simp add: wellFormed_def)
  have w2: "\<forall>ob\<in>set (fst r2). biasMin ob \<le> biasMax ob"
    using wellFormed_static [OF s2 wf] by (simp add: wellFormed_def)
  have w0: "\<forall>ob\<in>set objs. biasMin ob \<le> biasMax ob" using wf by (simp add: wellFormed_def)
  have lt: "sidx e < length objs" using threeSteps_sidx [OF e] sub by auto
  from e consider "e \<in> set (snd (snd r1))" | "e \<in> set (snd (snd r2))" | "e \<in> set (snd (snd r3))"
    by (auto simp add: threeSteps_def journal3_def Let_def r1_def r2_def r3_def)
  then show ?thesis
  proof cases
    case 1
    then show ?thesis unfolding r1_def using sub by (intro applySteps_snew_bounds [OF w0]) auto
  next
    case 2
    have "biasMin (fst r1 ! sidx e) \<le> snew e \<and> snew e \<le> biasMax (fst r1 ! sidx e)"
      using 2 sub l1 unfolding r2_def by (intro applySteps_snew_bounds [OF w1]) auto
    with static_fields(1,2) [OF static_nth [OF s1 lt]] show ?thesis by simp
  next
    case 3
    have "biasMin (fst r2 ! sidx e) \<le> snew e \<and> snew e \<le> biasMax (fst r2 ! sidx e)"
      using 3 sub l2 unfolding r3_def by (intro applySteps_snew_bounds [OF w2]) auto
    with static_fields(1,2) [OF static_nth [OF s2 lt]] show ?thesis by simp
  qed
qed

lemma threeSteps_effective:
  "length (filter effective (journal3 (threeSteps b1 b2 b3 d objs n))) \<le> nat n"
proof (cases "0 \<le> n")
  case False
  then show ?thesis
    by (simp add: threeSteps_def journal3_def Let_def applySteps_nobudget)
next
  case True
  define r1 where "r1 = applySteps b1 d objs n"
  define r2 where "r2 = applySteps b2 d (fst r1) (fst (snd r1))"
  define r3 where "r3 = applySteps b3 d (fst r2) (fst (snd r2))"
  define c1 where "c1 = length (filter effective (snd (snd r1)))"
  define c2 where "c2 = length (filter effective (snd (snd r2)))"
  define c3 where "c3 = length (filter effective (snd (snd r3)))"
  have n1: "fst (snd r1) = n - int c1" unfolding r1_def c1_def by (rule applySteps_budget [OF True])
  have e1: "c1 \<le> nat n" unfolding r1_def c1_def by (rule applySteps_effective)
  have p1: "0 \<le> fst (snd r1)" using n1 e1 True by linarith
  have n2: "fst (snd r2) = fst (snd r1) - int c2"
    unfolding r2_def c2_def by (rule applySteps_budget [OF p1])
  have e2: "c2 \<le> nat (fst (snd r1))" unfolding r2_def c2_def by (rule applySteps_effective)
  have p2: "0 \<le> fst (snd r2)" using n2 e2 p1 by linarith
  have e3: "c3 \<le> nat (fst (snd r2))" unfolding r3_def c3_def by (rule applySteps_effective)
  have "c1 + c2 + c3 \<le> nat n" using n1 n2 e1 e2 e3 p1 p2 True by linarith
  then show ?thesis
    by (simp add: threeSteps_def journal3_def Let_def r1_def r2_def r3_def c1_def c2_def c3_def)
qed

lemma threeSteps_order:
  "prefix (map sidx (fst (snd (threeSteps b1 b2 b3 d objs n)))) b1
   \<and> prefix (map sidx (fst (snd (snd (threeSteps b1 b2 b3 d objs n))))) b2
   \<and> prefix (map sidx (snd (snd (snd (threeSteps b1 b2 b3 d objs n))))) b3"
  by (simp add: threeSteps_def Let_def applySteps_prefix)

lemma threeSteps_cover:
  "(fst (snd (snd (threeSteps b1 b2 b3 d objs n))) \<noteq> [] \<or> snd (snd (snd (threeSteps b1 b2 b3 d objs n))) \<noteq> []
      \<longrightarrow> map sidx (fst (snd (threeSteps b1 b2 b3 d objs n))) = b1)
   \<and> (snd (snd (snd (threeSteps b1 b2 b3 d objs n))) \<noteq> []
      \<longrightarrow> map sidx (fst (snd (snd (threeSteps b1 b2 b3 d objs n)))) = b2)"
proof -
  define r1 where "r1 = applySteps b1 d objs n"
  define r2 where "r2 = applySteps b2 d (fst r1) (fst (snd r1))"
  define r3 where "r3 = applySteps b3 d (fst r2) (fst (snd r2))"
  have a: "snd (snd r2) \<noteq> [] \<Longrightarrow> map sidx (snd (snd r1)) = b1"
    unfolding r1_def r2_def by (intro applySteps_leftover) (rule applySteps_journal_budget)
  have b: "snd (snd r3) \<noteq> [] \<Longrightarrow> map sidx (snd (snd r2)) = b2"
    unfolding r2_def r3_def by (intro applySteps_leftover) (rule applySteps_journal_budget)
  have "snd (snd r3) \<noteq> [] \<Longrightarrow> 0 < fst (snd r1)"
  proof -
    assume "snd (snd r3) \<noteq> []"
    then have "0 < fst (snd r2)" unfolding r3_def by (rule applySteps_journal_budget)
    moreover have "fst (snd r2) \<le> fst (snd r1)" unfolding r2_def by (rule applySteps_budget_le)
    ultimately show ?thesis by simp
  qed
  then have c: "snd (snd r3) \<noteq> [] \<Longrightarrow> map sidx (snd (snd r1)) = b1"
    unfolding r1_def by (intro applySteps_leftover)
  from a b c show ?thesis
    by (auto simp add: threeSteps_def Let_def r1_def r2_def r3_def)
qed

section \<open>The three mutation paths as phases\<close>

lemma spikeTourniquet_phase: "spikeTourniquet g = phase (bucketLow g) [] [] (stepSpike g) g"
  by (simp add: spikeTourniquet_def phase_def threeSteps_def journal3_def Let_def case_prod_beta)

lemma escalate_phase:
  "escalate g = phase (bucketLow g) (bucketNorm g) (bucketHigh g) (stepGradual g) g"
  by (simp add: escalate_def phase_def threeSteps_def journal3_def Let_def case_prod_beta)

lemma deescalate_phase:
  "deescalate g = phase (bucketHigh g) (bucketNorm g) (bucketLow g) (- stepGradual g) g"
  by (simp add: deescalate_def phase_def threeSteps_def journal3_def Let_def case_prod_beta)

lemma phase_empty: "phase [] [] [] d g = (g, [])"
  by (simp add: phase_def threeSteps_def journal3_def)

lemma spikePart_phase:
  "\<exists>b1 d. set b1 \<subseteq> bucketsOf g \<and> spikePart delta g = phase b1 [] [] d g"
proof (cases "delta \<le> - spikeThreshMB g")
  case True
  then have "spikePart delta g = phase (bucketLow g) [] [] (stepSpike g) g"
    by (simp add: spikePart_def spikeTourniquet_phase)
  moreover have "set (bucketLow g) \<subseteq> bucketsOf g" by (auto simp add: bucketsOf_def)
  ultimately show ?thesis by blast
next
  case False
  then have "spikePart delta g = phase [] [] [] 0 g" by (simp add: spikePart_def phase_empty)
  then show ?thesis by (metis empty_set empty_subsetI)
qed

lemma bandPart_phase:
  "\<exists>b1 b2 b3 d. set b1 \<union> set b2 \<union> set b3 \<subseteq> bucketsOf g \<and> bandPart freeMB g = phase b1 b2 b3 d g"
proof -
  consider (esc) "bandPart freeMB g = escalate g" | (de) "bandPart freeMB g = deescalate g"
    | (none) "bandPart freeMB g = (g, [])"
    by (cases "freeMB < targetFreeMB g - hysteresisMB g";
        cases "freeMB > targetFreeMB g + hysteresisMB g") (simp_all add: bandPart_def)
  then show ?thesis
  proof cases
    case esc
    then have "bandPart freeMB g = phase (bucketLow g) (bucketNorm g) (bucketHigh g) (stepGradual g) g"
      by (simp add: escalate_phase)
    moreover have "set (bucketLow g) \<union> set (bucketNorm g) \<union> set (bucketHigh g) \<subseteq> bucketsOf g"
      by (auto simp add: bucketsOf_def)
    ultimately show ?thesis by blast
  next
    case de
    then have "bandPart freeMB g = phase (bucketHigh g) (bucketNorm g) (bucketLow g) (- stepGradual g) g"
      by (simp add: deescalate_phase)
    moreover have "set (bucketHigh g) \<union> set (bucketNorm g) \<union> set (bucketLow g) \<subseteq> bucketsOf g"
      by (auto simp add: bucketsOf_def)
    ultimately show ?thesis by blast
  next
    case none
    then have "bandPart freeMB g = phase [] [] [] 0 g" by (simp add: phase_empty)
    moreover have "set [] \<union> set [] \<union> set [] \<subseteq> bucketsOf g" by simp
    ultimately show ?thesis by blast
  qed
qed

lemma phase_fields:
  "bucketLow (fst (phase b1 b2 b3 d g)) = bucketLow g"
  "bucketNorm (fst (phase b1 b2 b3 d g)) = bucketNorm g"
  "bucketHigh (fst (phase b1 b2 b3 d g)) = bucketHigh g"
  "stepBudgetPerTick (fst (phase b1 b2 b3 d g)) = stepBudgetPerTick g"
  "stepGradual (fst (phase b1 b2 b3 d g)) = stepGradual g"
  "targetFreeMB (fst (phase b1 b2 b3 d g)) = targetFreeMB g"
  "hysteresisMB (fst (phase b1 b2 b3 d g)) = hysteresisMB g"
  "lastPrint (fst (phase b1 b2 b3 d g)) = lastPrint g"
  by (simp_all add: phase_def)

lemma bucketsOf_phase: "bucketsOf (fst (phase b1 b2 b3 d g)) = bucketsOf g"
  by (simp add: bucketsOf_def phase_fields)

lemma evaluate_executes:
  assumes "executes now g"
  shows "objects (fst (evaluate now freeMB tv g)) =
           objects (fst (bandPart freeMB (fst (spikePart (freeMB - lastFreeMB g)
              (rebuildBuckets (g\<lparr>lastEval := now, lastFreeMB := freeMB\<rparr>))))))"
    and "snd (evaluate now freeMB tv g) =
           snd (spikePart (freeMB - lastFreeMB g) (rebuildBuckets (g\<lparr>lastEval := now, lastFreeMB := freeMB\<rparr>)))
           @ snd (bandPart freeMB (fst (spikePart (freeMB - lastFreeMB g)
              (rebuildBuckets (g\<lparr>lastEval := now, lastFreeMB := freeMB\<rparr>)))))"
proof -
  let ?g3 = "rebuildBuckets (g\<lparr>lastEval := now, lastFreeMB := freeMB\<rparr>)"
  let ?p1 = "spikePart (freeMB - lastFreeMB g) ?g3"
  obtain b1 d where p1: "?p1 = phase b1 [] [] d ?g3" using spikePart_phase by blast
  have ev: "evaluate now freeMB tv g =
      (let p2 = bandPart freeMB (fst ?p1)
       in (if now - lastPrint (fst p2) > 0.5 then (fst p2)\<lparr>lastPrint := now\<rparr> else fst p2, snd ?p1 @ snd p2))"
    using assms
    by (simp add: evaluate_def executes_def Let_def case_prod_beta spikePart_def bandPart_def
        rebuildBuckets_fields p1 phase_fields spikeTourniquet_phase)
  show "objects (fst (evaluate now freeMB tv g)) = objects (fst (bandPart freeMB (fst ?p1)))"
    by (simp add: ev Let_def)
  show "snd (evaluate now freeMB tv g) = snd ?p1 @ snd (bandPart freeMB (fst ?p1))"
    by (simp add: ev Let_def)
qed

lemma evaluate_idle:
  "\<not> executes now g \<Longrightarrow> objects (fst (evaluate now freeMB tv g)) = objects g \<and> snd (evaluate now freeMB tv g) = []"
  by (auto simp add: evaluate_def executes_def)

section \<open>The tick as two budgeted runs\<close>

lemma bucketsOf_rebuildBuckets: "bucketsOf (rebuildBuckets g) = visibleIdx (objects g)"
proof -
  have "\<And>p. p = Low \<or> p = Normal \<or> p = High" using Priority.exhaust by blast
  then show ?thesis
    by (auto simp add: bucketsOf_def rebuildBuckets_buckets set_bucket visibleIdx_def)
qed

lemma evaluate_runs:
  assumes ex: "executes now g"
  obtains b1 d1 c1 c2 c3 d2 where
    "set b1 \<subseteq> visibleIdx (objects g)"
    "set c1 \<union> set c2 \<union> set c3 \<subseteq> visibleIdx (objects g)"
    "\<not> freeMB - lastFreeMB g \<le> - spikeThreshMB g \<longrightarrow> b1 = []"
    "objects (fst (evaluate now freeMB tv g)) =
       fst (threeSteps c1 c2 c3 d2
             (fst (threeSteps b1 [] [] d1 (objects g) (stepBudgetPerTick g))) (stepBudgetPerTick g))"
    "snd (evaluate now freeMB tv g) =
       journal3 (threeSteps b1 [] [] d1 (objects g) (stepBudgetPerTick g))
       @ journal3 (threeSteps c1 c2 c3 d2
             (fst (threeSteps b1 [] [] d1 (objects g) (stepBudgetPerTick g))) (stepBudgetPerTick g))"
proof -
  let ?g3 = "rebuildBuckets (g\<lparr>lastEval := now, lastFreeMB := freeMB\<rparr>)"
  let ?p1 = "spikePart (freeMB - lastFreeMB g) ?g3"
  have vis: "bucketsOf ?g3 = visibleIdx (objects g)" by (simp add: bucketsOf_rebuildBuckets)
  have o3: "objects ?g3 = objects g" "stepBudgetPerTick ?g3 = stepBudgetPerTick g"
    by (simp_all add: rebuildBuckets_fields)
  have "\<exists>b1 d. set b1 \<subseteq> bucketsOf ?g3 \<and> ?p1 = phase b1 [] [] d ?g3
           \<and> (\<not> freeMB - lastFreeMB g \<le> - spikeThreshMB g \<longrightarrow> b1 = [])"
  proof (cases "freeMB - lastFreeMB g \<le> - spikeThreshMB g")
    case True
    then show ?thesis using spikePart_phase [of ?g3 "freeMB - lastFreeMB g"] by blast
  next
    case False
    then have "?p1 = phase [] [] [] 0 ?g3"
      by (simp add: spikePart_def phase_empty rebuildBuckets_fields)
    then show ?thesis by (metis empty_set empty_subsetI)
  qed
  then obtain b1 d1 where b1: "set b1 \<subseteq> bucketsOf ?g3" and p1: "?p1 = phase b1 [] [] d1 ?g3"
    and ns: "\<not> freeMB - lastFreeMB g \<le> - spikeThreshMB g \<Longrightarrow> b1 = []"
    by blast
  obtain c1 c2 c3 d2 where c: "set c1 \<union> set c2 \<union> set c3 \<subseteq> bucketsOf (fst ?p1)"
    and p2: "bandPart freeMB (fst ?p1) = phase c1 c2 c3 d2 (fst ?p1)"
    using bandPart_phase [of "fst ?p1" freeMB] by blast
  have bo: "bucketsOf (fst ?p1) = visibleIdx (objects g)"
    by (simp add: p1 bucketsOf_phase vis)
  have o1: "objects (fst ?p1) = fst (threeSteps b1 [] [] d1 (objects g) (stepBudgetPerTick g))"
    by (simp add: p1 phase_def o3)
  have j1: "snd ?p1 = journal3 (threeSteps b1 [] [] d1 (objects g) (stepBudgetPerTick g))"
    by (simp add: p1 phase_def o3)
  have bud: "stepBudgetPerTick (fst ?p1) = stepBudgetPerTick g"
    by (simp add: p1 phase_fields o3)
  show thesis
  proof (rule that [of b1 c1 c2 c3 d2 d1])
    show "set b1 \<subseteq> visibleIdx (objects g)" using b1 vis by simp
    show "set c1 \<union> set c2 \<union> set c3 \<subseteq> visibleIdx (objects g)" using c bo by simp
    show "\<not> freeMB - lastFreeMB g \<le> - spikeThreshMB g \<longrightarrow> b1 = []" using ns by blast
    show "objects (fst (evaluate now freeMB tv g)) =
       fst (threeSteps c1 c2 c3 d2
             (fst (threeSteps b1 [] [] d1 (objects g) (stepBudgetPerTick g))) (stepBudgetPerTick g))"
      by (simp add: evaluate_executes(1) [OF ex] p2 phase_def o1 bud)
    show "snd (evaluate now freeMB tv g) =
       journal3 (threeSteps b1 [] [] d1 (objects g) (stepBudgetPerTick g))
       @ journal3 (threeSteps c1 c2 c3 d2
             (fst (threeSteps b1 [] [] d1 (objects g) (stepBudgetPerTick g))) (stepBudgetPerTick g))"
      by (simp add: evaluate_executes(2) [OF ex] p2 phase_def o1 bud j1)
  qed
qed

section \<open>Bias bounds\<close>

lemma evaluate_inBounds:
  assumes "\<forall>ob\<in>set (objects g). inBounds ob"
  shows "\<forall>ob\<in>set (objects (fst (evaluate now freeMB tv g))). inBounds ob"
proof (cases "executes now g")
  case False
  with assms show ?thesis by (simp add: evaluate_idle)
next
  case True
  then obtain b1 d1 c1 c2 c3 d2 where
    o: "objects (fst (evaluate now freeMB tv g)) =
       fst (threeSteps c1 c2 c3 d2
             (fst (threeSteps b1 [] [] d1 (objects g) (stepBudgetPerTick g))) (stepBudgetPerTick g))"
    by (rule evaluate_runs)
  have "\<forall>ob\<in>set (fst (threeSteps b1 [] [] d1 (objects g) (stepBudgetPerTick g))). inBounds ob"
    using assms by (rule threeSteps_inBounds)
  then have "\<forall>ob\<in>set (fst (threeSteps c1 c2 c3 d2
      (fst (threeSteps b1 [] [] d1 (objects g) (stepBudgetPerTick g))) (stepBudgetPerTick g))). inBounds ob"
    by (rule threeSteps_inBounds)
  then show ?thesis by (simp only: o)
qed

lemma evaluate_journal_bounds:
  assumes wf: "wellFormed (objects g)" and e: "e \<in> set (snd (evaluate now freeMB tv g))"
  shows "sidx e < length (objects g)
    \<and> biasMin (objects g ! sidx e) \<le> snew e \<and> snew e \<le> biasMax (objects g ! sidx e)"
proof (cases "executes now g")
  case False
  with e show ?thesis by (simp add: evaluate_idle)
next
  case True
  let ?B = "stepBudgetPerTick g"
  from True obtain b1 d1 c1 c2 c3 d2 where
    b1: "set b1 \<subseteq> visibleIdx (objects g)" and
    c: "set c1 \<union> set c2 \<union> set c3 \<subseteq> visibleIdx (objects g)" and
    j: "snd (evaluate now freeMB tv g) =
       journal3 (threeSteps b1 [] [] d1 (objects g) ?B)
       @ journal3 (threeSteps c1 c2 c3 d2 (fst (threeSteps b1 [] [] d1 (objects g) ?B)) ?B)"
    by (rule evaluate_runs)
  let ?o1 = "fst (threeSteps b1 [] [] d1 (objects g) ?B)"
  have vis: "visibleIdx (objects g) \<subseteq> {..<length (objects g)}" by (auto simp add: visibleIdx_def)
  have s1: "map static ?o1 = map static (objects g)" by (rule threeSteps_static)
  have l1: "length ?o1 = length (objects g)" by (rule threeSteps_length)
  from e have "e \<in> set (journal3 (threeSteps b1 [] [] d1 (objects g) ?B)
      @ journal3 (threeSteps c1 c2 c3 d2 ?o1 ?B))"
    by (simp only: j)
  then consider
    (spike) "e \<in> set (journal3 (threeSteps b1 [] [] d1 (objects g) ?B))"
    | (band) "e \<in> set (journal3 (threeSteps c1 c2 c3 d2 ?o1 ?B))"
    by (simp only: set_append Un_iff) blast
  then show ?thesis
  proof cases
    case spike
    have sub: "set b1 \<union> set [] \<union> set [] \<subseteq> {..<length (objects g)}" using b1 vis by auto
    have "sidx e < length (objects g)" using threeSteps_sidx [OF spike] sub by auto
    with threeSteps_snew_bounds [OF wf sub spike] show ?thesis by simp
  next
    case band
    have sub: "set c1 \<union> set c2 \<union> set c3 \<subseteq> {..<length ?o1}" using c vis l1 by auto
    have lt: "sidx e < length (objects g)" using threeSteps_sidx [OF band] sub l1 by auto
    have "biasMin (?o1 ! sidx e) \<le> snew e \<and> snew e \<le> biasMax (?o1 ! sidx e)"
      by (rule threeSteps_snew_bounds [OF wellFormed_static [OF s1 wf] sub band])
    with static_fields(1,2) [OF static_nth [OF s1 lt]] lt show ?thesis by simp
  qed
qed

text \<open>
  Claim C2. Let every object have \<open>biasMin \<le> biasMax\<close> (the precondition of
  \<^verbatim>\<open>std::clamp\<close>). Then every write the governor performs in a tick, whether a
  spike, an escalation or a de-escalation step, leaves the written object's bias
  within its bounds; and if every object's bias was within its bounds before the tick,
  every object's bias is within its bounds after it.
\<close>

theorem bias_within_bounds:
  assumes "\<forall>ob\<in>set (objects g). biasMin ob \<le> biasMax ob"
  shows "(\<forall>e\<in>set (snd (evaluate now freeMB tv g)).
            sidx e < length (objects g)
            \<and> biasMin (objects g ! sidx e) \<le> snew e \<and> snew e \<le> biasMax (objects g ! sidx e))
    \<and> ((\<forall>ob\<in>set (objects g). biasMin ob \<le> bias ob \<and> bias ob \<le> biasMax ob) \<longrightarrow>
         (\<forall>ob\<in>set (objects (fst (evaluate now freeMB tv g))). biasMin ob \<le> bias ob \<and> bias ob \<le> biasMax ob))"
proof -
  have wf: "wellFormed (objects g)" using assms by (simp add: wellFormed_def)
  have a: "\<forall>e\<in>set (snd (evaluate now freeMB tv g)).
            sidx e < length (objects g)
            \<and> biasMin (objects g ! sidx e) \<le> snew e \<and> snew e \<le> biasMax (objects g ! sidx e)"
  proof
    fix e assume "e \<in> set (snd (evaluate now freeMB tv g))"
    with wf show "sidx e < length (objects g)
        \<and> biasMin (objects g ! sidx e) \<le> snew e \<and> snew e \<le> biasMax (objects g ! sidx e)"
      by (rule evaluate_journal_bounds)
  qed
  have b: "(\<forall>ob\<in>set (objects g). biasMin ob \<le> bias ob \<and> bias ob \<le> biasMax ob) \<longrightarrow>
         (\<forall>ob\<in>set (objects (fst (evaluate now freeMB tv g))). biasMin ob \<le> bias ob \<and> bias ob \<le> biasMax ob)"
    using evaluate_inBounds [of g now freeMB tv] unfolding inBounds_def by blast
  from a b show ?thesis by (rule conjI)
qed

section \<open>What a tick leaves alone\<close>

lemma evaluate_untouched:
  assumes "i \<notin> visibleIdx (objects g)"
  shows "objects (fst (evaluate now freeMB tv g)) ! i = objects g ! i"
    and "\<forall>e\<in>set (snd (evaluate now freeMB tv g)). sidx e \<noteq> i"
proof -
  have "objects (fst (evaluate now freeMB tv g)) ! i = objects g ! i
      \<and> (\<forall>e\<in>set (snd (evaluate now freeMB tv g)). sidx e \<noteq> i)"
  proof (cases "executes now g")
    case False
    then show ?thesis by (simp add: evaluate_idle)
  next
    case True
    let ?B = "stepBudgetPerTick g"
    from True obtain b1 d1 c1 c2 c3 d2 where
      b1: "set b1 \<subseteq> visibleIdx (objects g)" and
      c: "set c1 \<union> set c2 \<union> set c3 \<subseteq> visibleIdx (objects g)" and
      o: "objects (fst (evaluate now freeMB tv g)) =
         fst (threeSteps c1 c2 c3 d2 (fst (threeSteps b1 [] [] d1 (objects g) ?B)) ?B)" and
      j: "snd (evaluate now freeMB tv g) =
         journal3 (threeSteps b1 [] [] d1 (objects g) ?B)
         @ journal3 (threeSteps c1 c2 c3 d2 (fst (threeSteps b1 [] [] d1 (objects g) ?B)) ?B)"
      by (rule evaluate_runs)
    have n1: "i \<notin> set b1 \<union> set [] \<union> set []" using assms b1 by auto
    have n2: "i \<notin> set c1 \<union> set c2 \<union> set c3" using assms c by auto
    have "objects (fst (evaluate now freeMB tv g)) ! i = objects g ! i"
      by (simp only: o threeSteps_untouched [OF n2] threeSteps_untouched [OF n1])
    moreover have "\<forall>e\<in>set (snd (evaluate now freeMB tv g)). sidx e \<noteq> i"
    proof
      fix e assume "e \<in> set (snd (evaluate now freeMB tv g))"
      then have "e \<in> set (journal3 (threeSteps b1 [] [] d1 (objects g) ?B))
          \<or> e \<in> set (journal3 (threeSteps c1 c2 c3 d2 (fst (threeSteps b1 [] [] d1 (objects g) ?B)) ?B))"
        by (simp only: j set_append Un_iff)
      then have "sidx e \<in> set b1 \<union> set [] \<union> set [] \<or> sidx e \<in> set c1 \<union> set c2 \<union> set c3"
        using threeSteps_sidx by blast
      with n1 n2 show "sidx e \<noteq> i" by blast
    qed
    ultimately show ?thesis by blast
  qed
  then show "objects (fst (evaluate now freeMB tv g)) ! i = objects g ! i"
    and "\<forall>e\<in>set (snd (evaluate now freeMB tv g)). sidx e \<noteq> i" by blast+
qed

text \<open>
  Claim C10. A registered object that is not visible at the start of a tick is in none
  of the rebuilt buckets, no step of the tick writes it, and the tick leaves it
  unchanged.
\<close>

theorem invisible_untouched:
  assumes "i < length (objects g)" and "\<not> visible (objects g ! i)"
  shows "objects (fst (evaluate now freeMB tv g)) ! i = objects g ! i
    \<and> (\<forall>e\<in>set (snd (evaluate now freeMB tv g)). sidx e \<noteq> i)
    \<and> i \<notin> set (bucketLow (rebuildBuckets g)) \<union> set (bucketNorm (rebuildBuckets g))
          \<union> set (bucketHigh (rebuildBuckets g))"
proof -
  have ni: "i \<notin> visibleIdx (objects g)" using assms by (simp add: visibleIdx_def)
  moreover have "i \<notin> bucketsOf (rebuildBuckets g)" using ni by (simp add: bucketsOf_rebuildBuckets)
  ultimately show ?thesis
    using evaluate_untouched [of i g now freeMB tv] by (simp add: bucketsOf_def)
qed

text \<open>
  Claim C4. When the signal lies strictly inside the band around the target and the
  drop since the last reading does not reach the spike threshold, a tick performs no
  step and leaves every object as it was.
\<close>

theorem deadband_no_change:
  assumes "targetFreeMB g - hysteresisMB g < freeMB" and "freeMB < targetFreeMB g + hysteresisMB g"
    and "\<not> freeMB - lastFreeMB g \<le> - spikeThreshMB g"
  shows "objects (fst (evaluate now freeMB tv g)) = objects g \<and> snd (evaluate now freeMB tv g) = []"
  using assms
  by (simp add: evaluate_def Let_def rebuildBuckets_def)

section \<open>The budget\<close>

lemma evaluate_effective_bound:
  "length (filter effective (snd (evaluate now freeMB tv g))) \<le> 2 * nat (stepBudgetPerTick g)
   \<and> (\<not> freeMB - lastFreeMB g \<le> - spikeThreshMB g \<longrightarrow>
        length (filter effective (snd (evaluate now freeMB tv g))) \<le> nat (stepBudgetPerTick g))"
proof -
  let ?B = "stepBudgetPerTick g"
  have "length (filter effective (snd (evaluate now freeMB tv g))) \<le> 2 * nat ?B
    \<and> (\<not> freeMB - lastFreeMB g \<le> - spikeThreshMB g \<longrightarrow>
     length (filter effective (snd (evaluate now freeMB tv g))) \<le> nat ?B)"
  proof (cases "executes now g")
    case False
    then show ?thesis by (simp add: evaluate_idle)
  next
    case True
    then obtain b1 d1 c1 c2 c3 d2 where
      ns: "\<not> freeMB - lastFreeMB g \<le> - spikeThreshMB g \<longrightarrow> b1 = []" and
      j: "snd (evaluate now freeMB tv g) =
         journal3 (threeSteps b1 [] [] d1 (objects g) ?B)
         @ journal3 (threeSteps c1 c2 c3 d2 (fst (threeSteps b1 [] [] d1 (objects g) ?B)) ?B)"
      by (rule evaluate_runs [where freeMB = freeMB and tv = tv])
    have a: "length (filter effective (journal3 (threeSteps b1 [] [] d1 (objects g) ?B))) \<le> nat ?B"
      by (rule threeSteps_effective)
    have b: "length (filter effective (journal3 (threeSteps c1 c2 c3 d2 (fst (threeSteps b1 [] [] d1 (objects g) ?B)) ?B))) \<le> nat ?B"
      by (rule threeSteps_effective)
    have c: "b1 = [] \<Longrightarrow> journal3 (threeSteps b1 [] [] d1 (objects g) ?B) = []"
      by (simp add: threeSteps_def journal3_def)
    have "length (filter effective (snd (evaluate now freeMB tv g))) =
        length (filter effective (journal3 (threeSteps b1 [] [] d1 (objects g) ?B)))
        + length (filter effective (journal3 (threeSteps c1 c2 c3 d2 (fst (threeSteps b1 [] [] d1 (objects g) ?B)) ?B)))"
      by (simp only: j filter_append length_append)
    with a b c ns show ?thesis by auto
  qed
  then show ?thesis .
qed
section \<open>The demo states\<close>

lemma runningGov_eq: "runningGov = (defaultGovernor demoObjects)\<lparr>lastFreeMB := 1024, lastEval := 0\<rparr>"
  by (simp add: runningGov_def evaluate_def defaultGovernor_def)

lemma hiddenGov_eq: "hiddenGov = (defaultGovernor hiddenObjects)\<lparr>lastFreeMB := 1024, lastEval := 0\<rparr>"
  by (simp add: hiddenGov_def evaluate_def defaultGovernor_def)

lemma runningGov_fields:
  "objects runningGov = demoObjects" "targetFreeMB runningGov = 1024" "hysteresisMB runningGov = 128"
  "spikeThreshMB runningGov = 256" "lastFreeMB runningGov = 1024" "stepBudgetPerTick runningGov = 4"
  by (simp_all add: runningGov_eq defaultGovernor_def)

lemma hiddenGov_fields:
  "objects hiddenGov = hiddenObjects"
  by (simp add: hiddenGov_eq defaultGovernor_def)

theorem bias_within_bounds_witness:
  "list_all (\<lambda>ob. biasMin ob \<le> biasMax ob) (objects runningGov)
   \<and> list_all (\<lambda>ob. biasMin ob \<le> bias ob \<and> bias ob \<le> biasMax ob) (objects runningGov)
   \<and> list_all (\<lambda>e. biasMin (objects runningGov ! sidx e) \<le> snew e
                    \<and> snew e \<le> biasMax (objects runningGov ! sidx e))
        (snd (evaluate 1 700 True runningGov))
   \<and> list_all (\<lambda>ob. biasMin ob \<le> bias ob \<and> bias ob \<le> biasMax ob)
        (objects (fst (evaluate 1 700 True runningGov)))"
proof -
  have wf: "\<forall>ob\<in>set (objects runningGov). biasMin ob \<le> biasMax ob"
    by (simp add: runningGov_fields demoObjects_def addObj_def)
  have inv: "\<forall>ob\<in>set (objects runningGov). biasMin ob \<le> bias ob \<and> bias ob \<le> biasMax ob"
    by (simp add: runningGov_fields demoObjects_def addObj_def)
  from bias_within_bounds [OF wf, of 1 700 True] wf inv show ?thesis
    unfolding list_all_iff by blast
qed

theorem invisible_untouched_witness:
  "1 < length (objects hiddenGov) \<and> \<not> visible (objects hiddenGov ! 1)
   \<and> objects (fst (evaluate 1 700 True hiddenGov)) ! 1 = objects hiddenGov ! 1
   \<and> 1 \<notin> set (bucketLow (rebuildBuckets hiddenGov))"
proof -
  have a: "1 < length (objects hiddenGov)" and b: "\<not> visible (objects hiddenGov ! 1)"
    by (simp_all add: hiddenGov_fields hiddenObjects_def demoObjects_def addObj_def)
  from invisible_untouched [OF a b, of 1 700 True] a b show ?thesis by blast
qed

theorem deadband_no_change_witness:
  "targetFreeMB runningGov - hysteresisMB runningGov < 1000
   \<and> 1000 < targetFreeMB runningGov + hysteresisMB runningGov
   \<and> \<not> 1000 - lastFreeMB runningGov \<le> - spikeThreshMB runningGov
   \<and> objects (fst (evaluate 1 1000 True runningGov)) = objects runningGov
   \<and> snd (evaluate 1 1000 True runningGov) = []"
proof -
  have h: "targetFreeMB runningGov - hysteresisMB runningGov < 1000"
    "1000 < targetFreeMB runningGov + hysteresisMB runningGov"
    "\<not> 1000 - lastFreeMB runningGov \<le> - spikeThreshMB runningGov"
    by (simp_all add: runningGov_fields)
  from deadband_no_change [OF h, of 1 True] h show ?thesis by blast
qed

section \<open>Rebuilt buckets\<close>

lemma evaluate_executes_eq:
  assumes "executes now g"
  shows "evaluate now freeMB tv g =
      (let g3 = rebuildBuckets (g\<lparr>lastEval := now, lastFreeMB := freeMB\<rparr>);
           p1 = spikePart (freeMB - lastFreeMB g) g3;
           p2 = bandPart freeMB (fst p1)
       in (if now - lastPrint (fst p2) > 0.5 then (fst p2)\<lparr>lastPrint := now\<rparr> else fst p2, snd p1 @ snd p2))"
proof -
  let ?g3 = "rebuildBuckets (g\<lparr>lastEval := now, lastFreeMB := freeMB\<rparr>)"
  let ?p1 = "spikePart (freeMB - lastFreeMB g) ?g3"
  obtain b1 d where p1: "?p1 = phase b1 [] [] d ?g3" using spikePart_phase by blast
  show ?thesis
    using assms
    by (simp add: evaluate_def executes_def Let_def case_prod_beta spikePart_def bandPart_def
        rebuildBuckets_fields p1 phase_fields spikeTourniquet_phase)
qed

lemma rebuildBuckets_time:
  "bucketLow (rebuildBuckets (g\<lparr>lastEval := a, lastFreeMB := b\<rparr>)) = bucketLow (rebuildBuckets g)"
  "bucketNorm (rebuildBuckets (g\<lparr>lastEval := a, lastFreeMB := b\<rparr>)) = bucketNorm (rebuildBuckets g)"
  "bucketHigh (rebuildBuckets (g\<lparr>lastEval := a, lastFreeMB := b\<rparr>)) = bucketHigh (rebuildBuckets g)"
  by (simp_all add: rebuildBuckets_def)

lemma spikePart_fields:
  "bucketLow (fst (spikePart delta g)) = bucketLow g"
  "bucketNorm (fst (spikePart delta g)) = bucketNorm g"
  "bucketHigh (fst (spikePart delta g)) = bucketHigh g"
  "stepBudgetPerTick (fst (spikePart delta g)) = stepBudgetPerTick g"
  "stepGradual (fst (spikePart delta g)) = stepGradual g"
  "targetFreeMB (fst (spikePart delta g)) = targetFreeMB g"
  "hysteresisMB (fst (spikePart delta g)) = hysteresisMB g"
  by (simp_all add: spikePart_def spikeTourniquet_phase phase_fields)

lemma bandPart_fields:
  "bucketLow (fst (bandPart freeMB g)) = bucketLow g"
  "bucketNorm (fst (bandPart freeMB g)) = bucketNorm g"
  "bucketHigh (fst (bandPart freeMB g)) = bucketHigh g"
  by (simp_all add: bandPart_def escalate_phase deescalate_phase phase_fields)

lemma evaluate_buckets:
  assumes "executes now g"
  shows "bucketLow (fst (evaluate now freeMB tv g)) = bucketLow (rebuildBuckets g)
       \<and> bucketNorm (fst (evaluate now freeMB tv g)) = bucketNorm (rebuildBuckets g)
       \<and> bucketHigh (fst (evaluate now freeMB tv g)) = bucketHigh (rebuildBuckets g)"
  by (simp add: evaluate_executes_eq [OF assms] Let_def bandPart_fields spikePart_fields
      rebuildBuckets_time)

lemma distinct_buckets:
  "distinct (bucketLow (rebuildBuckets g) @ bucketNorm (rebuildBuckets g) @ bucketHigh (rebuildBuckets g))"
  by (auto simp add: rebuildBuckets_buckets distinct_sortByEstMB distinct_collect set_bucket)

text \<open>
  Claim C6, as the code has it. \<^verbatim>\<open>rebuildBuckets\<close> splits the indices of the
  visible objects into the Low, Normal and High buckets: each bucket holds exactly the
  visible objects of its priority, no index occurs twice, and each bucket is ordered by
  non-increasing \<open>estMB\<close>. The objects themselves are not changed. A tick that gets
  past the first-sample and rate-limit returns rebuilds the buckets in this way before
  anything else. The comparator reads \<open>estMB\<close> only: nothing orders objects of equal
  footprint by id.
\<close>

theorem buckets_partition_sorted:
  "set (bucketLow (rebuildBuckets g)) =
       {i. i < length (objects g) \<and> visible (objects g ! i) \<and> priority (objects g ! i) = Low}
   \<and> set (bucketNorm (rebuildBuckets g)) =
       {i. i < length (objects g) \<and> visible (objects g ! i) \<and> priority (objects g ! i) = Normal}
   \<and> set (bucketHigh (rebuildBuckets g)) =
       {i. i < length (objects g) \<and> visible (objects g ! i) \<and> priority (objects g ! i) = High}
   \<and> distinct (bucketLow (rebuildBuckets g) @ bucketNorm (rebuildBuckets g) @ bucketHigh (rebuildBuckets g))
   \<and> sorted_wrt (\<lambda>a b. estMB (objects g ! b) \<le> estMB (objects g ! a)) (bucketLow (rebuildBuckets g))
   \<and> sorted_wrt (\<lambda>a b. estMB (objects g ! b) \<le> estMB (objects g ! a)) (bucketNorm (rebuildBuckets g))
   \<and> sorted_wrt (\<lambda>a b. estMB (objects g ! b) \<le> estMB (objects g ! a)) (bucketHigh (rebuildBuckets g))
   \<and> objects (rebuildBuckets g) = objects g
   \<and> (executes now g \<longrightarrow>
        bucketLow (fst (evaluate now freeMB tv g)) = bucketLow (rebuildBuckets g)
        \<and> bucketNorm (fst (evaluate now freeMB tv g)) = bucketNorm (rebuildBuckets g)
        \<and> bucketHigh (fst (evaluate now freeMB tv g)) = bucketHigh (rebuildBuckets g))"
proof -
  have s: "set (bucketLow (rebuildBuckets g)) =
       {i. i < length (objects g) \<and> visible (objects g ! i) \<and> priority (objects g ! i) = Low}"
    "set (bucketNorm (rebuildBuckets g)) =
       {i. i < length (objects g) \<and> visible (objects g ! i) \<and> priority (objects g ! i) = Normal}"
    "set (bucketHigh (rebuildBuckets g)) =
       {i. i < length (objects g) \<and> visible (objects g ! i) \<and> priority (objects g ! i) = High}"
    by (simp_all only: rebuildBuckets_buckets set_bucket)
  have o: "sorted_wrt (\<lambda>a b. estMB (objects g ! b) \<le> estMB (objects g ! a)) (bucketLow (rebuildBuckets g))"
    "sorted_wrt (\<lambda>a b. estMB (objects g ! b) \<le> estMB (objects g ! a)) (bucketNorm (rebuildBuckets g))"
    "sorted_wrt (\<lambda>a b. estMB (objects g ! b) \<le> estMB (objects g ! a)) (bucketHigh (rebuildBuckets g))"
    by (simp_all only: rebuildBuckets_buckets sorted_sortByEstMB)
  have e: "executes now g \<longrightarrow>
        bucketLow (fst (evaluate now freeMB tv g)) = bucketLow (rebuildBuckets g)
        \<and> bucketNorm (fst (evaluate now freeMB tv g)) = bucketNorm (rebuildBuckets g)
        \<and> bucketHigh (fst (evaluate now freeMB tv g)) = bucketHigh (rebuildBuckets g)"
    using evaluate_buckets by blast
  from s o e distinct_buckets [of g] rebuildBuckets_fields(1) [of g] show ?thesis by blast
qed

text \<open>
  The order the specification asks for fails on \<open>tieObjects\<close>: the bucket keeps index 0
  (id 5) before index 1 (id 3) although both have the footprint 64.
\<close>

theorem tie_not_by_id_counterexample:
  "\<not> sorted_wrt (spec_bucketOrder (objects (defaultGovernor tieObjects)))
        (bucketLow (rebuildBuckets (defaultGovernor tieObjects)))"
  by code_simp

section \<open>The spike path comes first\<close>

lemma bucket_priority:
  "i \<in> set (bucketLow (rebuildBuckets g)) \<Longrightarrow>
      i < length (objects g) \<and> visible (objects g ! i) \<and> priority (objects g ! i) = Low"
  "i \<in> set (bucketNorm (rebuildBuckets g)) \<Longrightarrow>
      i < length (objects g) \<and> visible (objects g ! i) \<and> priority (objects g ! i) = Normal"
  "i \<in> set (bucketHigh (rebuildBuckets g)) \<Longrightarrow>
      i < length (objects g) \<and> visible (objects g ! i) \<and> priority (objects g ! i) = High"
  by (simp_all add: rebuildBuckets_buckets set_bucket)

lemma spikeTourniquet_journal:
  "snd (spikeTourniquet g) =
     snd (snd (applySteps (bucketLow g) (stepSpike g) (objects g) (stepBudgetPerTick g)))"
  by (simp add: spikeTourniquet_def Let_def case_prod_beta)

lemma spikeTourniquet_time:
  "snd (spikeTourniquet (rebuildBuckets (g\<lparr>lastEval := a, lastFreeMB := b\<rparr>))) =
     snd (spikeTourniquet (rebuildBuckets g))"
  by (simp add: spikeTourniquet_journal rebuildBuckets_time rebuildBuckets_fields)

lemma evaluate_spike_journal:
  assumes "executes now g" and "freeMB - lastFreeMB g \<le> - spikeThreshMB g"
  shows "prefix (snd (spikeTourniquet (rebuildBuckets g))) (snd (evaluate now freeMB tv g))"
proof -
  have "snd (spikePart (freeMB - lastFreeMB g) (rebuildBuckets (g\<lparr>lastEval := now, lastFreeMB := freeMB\<rparr>)))
      = snd (spikeTourniquet (rebuildBuckets g))"
    using assms(2) by (simp add: spikePart_def rebuildBuckets_fields spikeTourniquet_time)
  then show ?thesis by (simp add: evaluate_executes(2) [OF assms(1)])
qed

lemma spike_entry:
  assumes "e \<in> set (snd (spikeTourniquet (rebuildBuckets g)))"
  shows "priority (objects g ! sidx e) = Low \<and> visible (objects g ! sidx e)
      \<and> sdelta e = stepSpike g
      \<and> sold e = bias (objects g ! sidx e)
      \<and> snew e = clampTo (objects g ! sidx e) (bias (objects g ! sidx e) + stepSpike g)"
proof -
  let ?b = "bucketLow (rebuildBuckets g)"
  from assms have e: "e \<in> set (snd (snd (applySteps ?b (stepSpike g) (objects g) (stepBudgetPerTick g))))"
    by (simp add: spikeTourniquet_journal rebuildBuckets_fields)
  have i: "sidx e \<in> set ?b" using e by (rule applySteps_sidx)
  have d: "distinct ?b" by (simp add: rebuildBuckets_buckets distinct_sortByEstMB distinct_collect)
  have sub: "set ?b \<subseteq> {..<length (objects g)}" using bucket_priority(1) [of _ g] by auto
  have old: "sold e = bias (objects g ! sidx e)" using d e by (rule applySteps_sold)
  have "snew e = clampTo (objects g ! sidx e) (sold e + stepSpike g)"
    using sub e by (rule applySteps_snew_clamp)
  with old bucket_priority(1) [OF i] applySteps_sdelta [OF e] show ?thesis by simp
qed

section \<open>The journal determines the objects\<close>

lemma stepped_eq: "stepped d ob = ob\<lparr>bias := clampTo ob (bias ob + d)\<rparr>"
  by (simp add: stepped_def clampObj_def clampTo_def)

lemma stepped_rebias: "(ob\<lparr>bias := bias (stepped d ob)\<rparr>) = stepped d ob"
  by (simp add: stepped_eq)

lemma replay_append: "replay (a @ b) objs = replay b (replay a objs)"
  by (induction a arbitrary: objs) simp_all

lemma logged_append: "logged (a @ b) objs = (logged a objs \<and> logged b (replay a objs))"
  by (induction a arbitrary: objs) simp_all

lemma applySteps_replay:
  "fst (applySteps b d objs n) = replay (snd (snd (applySteps b d objs n))) objs"
  by (induction b arbitrary: objs n)
     (simp_all add: applySteps_Cons stepped_rebias del: applySteps.simps(2))

lemma applySteps_logged:
  "logged (snd (snd (applySteps b d objs n))) objs"
  by (induction b arbitrary: objs n)
     (simp_all add: applySteps_Cons stepped_rebias del: applySteps.simps(2), simp add: stepped_eq)

lemma applySteps_stop:
  "map sidx (snd (snd (applySteps b d objs n))) = b
   \<or> n \<le> int (length (filter effective (snd (snd (applySteps b d objs n)))))"
proof (cases "0 \<le> n")
  case False
  then show ?thesis by simp
next
  case True
  show ?thesis
  proof (cases "0 < fst (snd (applySteps b d objs n))")
    case True
    then show ?thesis by (simp add: applySteps_leftover)
  next
    case False
    with applySteps_budget [OF \<open>0 \<le> n\<close>, of b d objs] show ?thesis by simp
  qed
qed

lemma applySteps_minimal:
  "snd (snd (applySteps b d objs n)) = []
   \<or> int (length (filter effective (butlast (snd (snd (applySteps b d objs n)))))) < n"
proof (induction b arbitrary: objs n)
  case Nil
  then show ?case by simp
next
  case (Cons idx rest)
  show ?case
  proof (cases "n \<le> 0")
    case True
    then show ?thesis by (simp add: applySteps_Cons del: applySteps.simps(2))
  next
    case False
    let ?objs' = "objs[idx := stepped d (objs ! idx)]"
    let ?n' = "spend d (objs ! idx) n"
    let ?tr' = "snd (snd (applySteps rest d ?objs' ?n'))"
    from Cons.IH [of ?objs' ?n'] consider "?tr' = []"
      | "?tr' \<noteq> []" "int (length (filter effective (butlast ?tr'))) < ?n'" by blast
    then show ?thesis
    proof cases
      case 1
      with False show ?thesis by (simp add: applySteps_Cons del: applySteps.simps(2))
    next
      case 2
      with False show ?thesis
        by (simp add: applySteps_Cons spend_def del: applySteps.simps(2) split: if_splits)
    qed
  qed
qed

lemma applySteps_append:
  "applySteps (b1 @ b2) d objs n =
     (fst (applySteps b2 d (fst (applySteps b1 d objs n)) (fst (snd (applySteps b1 d objs n)))),
      fst (snd (applySteps b2 d (fst (applySteps b1 d objs n)) (fst (snd (applySteps b1 d objs n))))),
      snd (snd (applySteps b1 d objs n))
        @ snd (snd (applySteps b2 d (fst (applySteps b1 d objs n)) (fst (snd (applySteps b1 d objs n))))))"
proof (induction b1 arbitrary: objs n)
  case Nil
  then show ?case by simp
next
  case (Cons idx rest)
  show ?case
  proof (cases "n \<le> 0")
    case True
    then show ?thesis
      by (simp add: applySteps_Cons applySteps_nobudget del: applySteps.simps(2))
  next
    case False
    then show ?thesis
      by (simp add: applySteps_Cons Cons.IH del: applySteps.simps(2))
  qed
qed

lemma threeSteps_single:
  "fst (threeSteps b1 b2 b3 d objs n) = fst (applySteps (b1 @ b2 @ b3) d objs n)"
  "journal3 (threeSteps b1 b2 b3 d objs n) = snd (snd (applySteps (b1 @ b2 @ b3) d objs n))"
  by (simp_all add: threeSteps_def journal3_def Let_def applySteps_append)

lemma threeSteps_replay:
  "fst (threeSteps b1 b2 b3 d objs n) = replay (journal3 (threeSteps b1 b2 b3 d objs n)) objs"
  by (simp only: threeSteps_single applySteps_replay [symmetric])

lemma threeSteps_logged: "logged (journal3 (threeSteps b1 b2 b3 d objs n)) objs"
  by (simp only: threeSteps_single applySteps_logged)

lemma threeSteps_stop:
  "map sidx (journal3 (threeSteps b1 b2 b3 d objs n)) = b1 @ b2 @ b3
   \<or> n \<le> int (length (filter effective (journal3 (threeSteps b1 b2 b3 d objs n))))"
  by (simp only: threeSteps_single applySteps_stop)

lemma threeSteps_minimal:
  "journal3 (threeSteps b1 b2 b3 d objs n) = []
   \<or> int (length (filter effective (butlast (journal3 (threeSteps b1 b2 b3 d objs n))))) < n"
  by (simp only: threeSteps_single applySteps_minimal)

lemma evaluate_replay:
  "objects (fst (evaluate now freeMB tv g)) = replay (snd (evaluate now freeMB tv g)) (objects g)
   \<and> logged (snd (evaluate now freeMB tv g)) (objects g)"
proof (cases "executes now g")
  case False
  then show ?thesis by (simp add: evaluate_idle)
next
  case True
  let ?B = "stepBudgetPerTick g"
  from True obtain b1 d1 c1 c2 c3 d2 where
    o: "objects (fst (evaluate now freeMB tv g)) =
       fst (threeSteps c1 c2 c3 d2 (fst (threeSteps b1 [] [] d1 (objects g) ?B)) ?B)" and
    j: "snd (evaluate now freeMB tv g) =
       journal3 (threeSteps b1 [] [] d1 (objects g) ?B)
       @ journal3 (threeSteps c1 c2 c3 d2 (fst (threeSteps b1 [] [] d1 (objects g) ?B)) ?B)"
    by (rule evaluate_runs)
  let ?A = "journal3 (threeSteps b1 [] [] d1 (objects g) ?B)"
  have o1: "fst (threeSteps b1 [] [] d1 (objects g) ?B) = replay ?A (objects g)"
    by (rule threeSteps_replay)
  have "objects (fst (evaluate now freeMB tv g)) = replay (snd (evaluate now freeMB tv g)) (objects g)"
    by (simp only: o j replay_append threeSteps_replay [symmetric])
  moreover have "logged (snd (evaluate now freeMB tv g)) (objects g)"
    by (simp only: j logged_append threeSteps_logged o1 [symmetric] simp_thms)
  ultimately show ?thesis by blast
qed

lemma replay_length: "length (replay tr objs) = length objs"
  by (induction tr arbitrary: objs) simp_all

lemma replay_nth_other: "i \<notin> sidx ` set tr \<Longrightarrow> replay tr objs ! i = objs ! i"
  by (induction tr arbitrary: objs) simp_all

lemma replay_nth_hit:
  "distinct (map sidx tr) \<Longrightarrow> e \<in> set tr \<Longrightarrow> sidx e < length objs \<Longrightarrow>
     replay tr objs ! sidx e = (objs ! sidx e)\<lparr>bias := snew e\<rparr>"
proof (induction tr arbitrary: objs)
  case Nil
  then show ?case by simp
next
  case (Cons x xs)
  let ?objs' = "objs[sidx x := (objs ! sidx x)\<lparr>bias := snew x\<rparr>]"
  from Cons.prems(1) have nx: "sidx x \<notin> sidx ` set xs" and dx: "distinct (map sidx xs)" by simp_all
  show ?case
  proof (cases "e = x")
    case True
    have "replay xs ?objs' ! sidx x = ?objs' ! sidx x" using nx by (rule replay_nth_other)
    with True Cons.prems(3) show ?thesis by simp
  next
    case False
    with Cons.prems(2) have ein: "e \<in> set xs" by simp
    then have "sidx e \<in> sidx ` set xs" by (rule imageI)
    with nx have ne: "sidx e \<noteq> sidx x" by metis
    have "replay xs ?objs' ! sidx e = (?objs' ! sidx e)\<lparr>bias := snew e\<rparr>"
      using dx ein Cons.prems(3) by (intro Cons.IH) simp_all
    with ne show ?thesis by simp
  qed
qed

lemma spikeTourniquet_objects:
  "objects (fst (spikeTourniquet g)) = replay (snd (spikeTourniquet g)) (objects g)"
  by (simp add: spikeTourniquet_phase phase_def threeSteps_replay [symmetric])

lemma spikeTourniquet_rebuilt_objects:
  "objects (fst (spikeTourniquet (rebuildBuckets g))) =
     replay (snd (spikeTourniquet (rebuildBuckets g))) (objects g)"
  by (simp add: spikeTourniquet_objects rebuildBuckets_fields)

lemma spike_distinct: "distinct (map sidx (snd (spikeTourniquet (rebuildBuckets g))))"
proof -
  have "prefix (map sidx (snd (spikeTourniquet (rebuildBuckets g)))) (bucketLow (rebuildBuckets g))"
    by (simp add: spikeTourniquet_journal rebuildBuckets_fields applySteps_prefix)
  moreover have "distinct (bucketLow (rebuildBuckets g))"
    by (simp add: rebuildBuckets_buckets distinct_sortByEstMB distinct_collect)
  ultimately show ?thesis by (auto simp add: prefix_def)
qed

lemma spike_result:
  assumes "e \<in> set (snd (spikeTourniquet (rebuildBuckets g)))"
  shows "objects (fst (spikeTourniquet (rebuildBuckets g))) ! sidx e =
     (objects g ! sidx e)\<lparr>bias := clampTo (objects g ! sidx e) (bias (objects g ! sidx e) + stepSpike g)\<rparr>"
proof -
  let ?A = "snd (spikeTourniquet (rebuildBuckets g))"
  have "sidx e \<in> set (bucketLow (rebuildBuckets g))"
    using assms by (simp add: spikeTourniquet_journal rebuildBuckets_fields applySteps_sidx)
  then have lt: "sidx e < length (objects g)" using bucket_priority(1) by blast
  have "replay ?A (objects g) ! sidx e = (objects g ! sidx e)\<lparr>bias := snew e\<rparr>"
    using spike_distinct assms lt by (rule replay_nth_hit)
  with spike_entry [OF assms] show ?thesis by (simp add: spikeTourniquet_rebuilt_objects)
qed

lemma spike_stop:
  "(map sidx (snd (spikeTourniquet (rebuildBuckets g))) = bucketLow (rebuildBuckets g)
      \<or> stepBudgetPerTick g \<le> int (length (filter effective (snd (spikeTourniquet (rebuildBuckets g))))))
   \<and> (snd (spikeTourniquet (rebuildBuckets g)) = []
      \<or> int (length (filter effective (butlast (snd (spikeTourniquet (rebuildBuckets g)))))) < stepBudgetPerTick g)"
  using applySteps_stop [of "bucketLow (rebuildBuckets g)" "stepSpike g" "objects g" "stepBudgetPerTick g"]
    applySteps_minimal [of "bucketLow (rebuildBuckets g)" "stepSpike g" "objects g" "stepBudgetPerTick g"]
  by (simp add: spikeTourniquet_journal rebuildBuckets_fields)

lemma spike_then_rest:
  assumes "executes now g" and "freeMB - lastFreeMB g \<le> - spikeThreshMB g"
  shows "\<exists>B. snd (evaluate now freeMB tv g) = snd (spikeTourniquet (rebuildBuckets g)) @ B
      \<and> logged B (objects (fst (spikeTourniquet (rebuildBuckets g))))
      \<and> objects (fst (evaluate now freeMB tv g)) = replay B (objects (fst (spikeTourniquet (rebuildBuckets g))))"
proof -
  let ?A = "snd (spikeTourniquet (rebuildBuckets g))"
  from evaluate_spike_journal [OF assms, of tv] obtain B where
    tr: "snd (evaluate now freeMB tv g) = ?A @ B" by (auto simp add: prefix_def)
  from evaluate_replay [of now freeMB tv g] have
    "objects (fst (evaluate now freeMB tv g)) = replay B (replay ?A (objects g))"
    "logged B (replay ?A (objects g))"
    by (simp_all add: tr replay_append logged_append)
  with tr show ?thesis by (simp add: spikeTourniquet_rebuilt_objects)
qed

text \<open>
  Claim C7. On a tick that executes with a drop of at least the spike threshold, the
  journal of the tick starts with the steps of the spike path. These visit the Low
  bucket in bucket order and stop only at its end or when the budget is used up; each
  of them writes a visible Low object, adding \<open>stepSpike\<close> to the bias the object had
  at the start of the tick and clamping. When the spike path is done, every object it
  visited holds that new bias and every other object is as it was. Every step of the
  tick that writes a Normal or High object comes after all of the spike steps: the rest
  of the journal consists of steps taken on the objects as the spike path left them,
  and the objects at the end of the tick are those with the rest of the journal
  performed on them.
\<close>

theorem spike_steps_low_first:
  assumes "executes now g" and "freeMB - lastFreeMB g \<le> - spikeThreshMB g"
  shows "prefix (snd (spikeTourniquet (rebuildBuckets g))) (snd (evaluate now freeMB tv g))
    \<and> prefix (map sidx (snd (spikeTourniquet (rebuildBuckets g)))) (bucketLow (rebuildBuckets g))
    \<and> (int (length (bucketLow (rebuildBuckets g))) \<le> stepBudgetPerTick g \<longrightarrow>
          map sidx (snd (spikeTourniquet (rebuildBuckets g))) = bucketLow (rebuildBuckets g))
    \<and> (\<forall>e\<in>set (snd (spikeTourniquet (rebuildBuckets g))).
          priority (objects g ! sidx e) = Low \<and> visible (objects g ! sidx e)
          \<and> sdelta e = stepSpike g
          \<and> sold e = bias (objects g ! sidx e)
          \<and> snew e = clampTo (objects g ! sidx e) (bias (objects g ! sidx e) + stepSpike g))
    \<and> (\<forall>j<length (snd (evaluate now freeMB tv g)).
          priority (objects g ! sidx (snd (evaluate now freeMB tv g) ! j)) \<noteq> Low \<longrightarrow>
          length (snd (spikeTourniquet (rebuildBuckets g))) \<le> j)
    \<and> (map sidx (snd (spikeTourniquet (rebuildBuckets g))) = bucketLow (rebuildBuckets g)
          \<or> stepBudgetPerTick g \<le> int (length (filter effective (snd (spikeTourniquet (rebuildBuckets g))))))
    \<and> (snd (spikeTourniquet (rebuildBuckets g)) = []
          \<or> int (length (filter effective (butlast (snd (spikeTourniquet (rebuildBuckets g)))))) < stepBudgetPerTick g)
    \<and> (\<forall>e\<in>set (snd (spikeTourniquet (rebuildBuckets g))).
          objects (fst (spikeTourniquet (rebuildBuckets g))) ! sidx e =
            (objects g ! sidx e)\<lparr>bias := clampTo (objects g ! sidx e) (bias (objects g ! sidx e) + stepSpike g)\<rparr>)
    \<and> (\<forall>i. i \<notin> sidx ` set (snd (spikeTourniquet (rebuildBuckets g))) \<longrightarrow>
          objects (fst (spikeTourniquet (rebuildBuckets g))) ! i = objects g ! i)
    \<and> (\<exists>B. snd (evaluate now freeMB tv g) = snd (spikeTourniquet (rebuildBuckets g)) @ B
          \<and> logged B (objects (fst (spikeTourniquet (rebuildBuckets g))))
          \<and> objects (fst (evaluate now freeMB tv g)) =
              replay B (objects (fst (spikeTourniquet (rebuildBuckets g)))))"
proof -
  let ?A = "snd (spikeTourniquet (rebuildBuckets g))"
  let ?tr = "snd (evaluate now freeMB tv g)"
  let ?os = "objects (fst (spikeTourniquet (rebuildBuckets g)))"
  have p: "prefix ?A ?tr" using assms by (rule evaluate_spike_journal)
  have q: "prefix (map sidx ?A) (bucketLow (rebuildBuckets g))"
    by (simp add: spikeTourniquet_journal rebuildBuckets_fields applySteps_prefix)
  have r: "int (length (bucketLow (rebuildBuckets g))) \<le> stepBudgetPerTick g \<longrightarrow>
          map sidx ?A = bucketLow (rebuildBuckets g)"
    by (simp add: spikeTourniquet_journal rebuildBuckets_fields applySteps_all)
  have s: "\<forall>e\<in>set ?A. priority (objects g ! sidx e) = Low \<and> visible (objects g ! sidx e)
          \<and> sdelta e = stepSpike g
          \<and> sold e = bias (objects g ! sidx e)
          \<and> snew e = clampTo (objects g ! sidx e) (bias (objects g ! sidx e) + stepSpike g)"
    using spike_entry by blast
  have t: "\<forall>j<length ?tr. priority (objects g ! sidx (?tr ! j)) \<noteq> Low \<longrightarrow> length ?A \<le> j"
  proof (intro allI impI)
    fix j
    assume j: "j < length ?tr" and np: "priority (objects g ! sidx (?tr ! j)) \<noteq> Low"
    show "length ?A \<le> j"
    proof (rule ccontr)
      assume "\<not> length ?A \<le> j"
      then have lt: "j < length ?A" by simp
      from p obtain B where tr: "?tr = ?A @ B" by (auto simp add: prefix_def)
      have "?tr ! j = ?A ! j" using lt by (simp only: tr nth_append if_True)
      moreover have "?A ! j \<in> set ?A" using lt by simp
      ultimately have "priority (objects g ! sidx (?tr ! j)) = Low" using s by simp
      with np show False by simp
    qed
  qed
  note u = spike_stop [of g]
  have v: "\<forall>e\<in>set ?A. ?os ! sidx e =
      (objects g ! sidx e)\<lparr>bias := clampTo (objects g ! sidx e) (bias (objects g ! sidx e) + stepSpike g)\<rparr>"
    using spike_result by blast
  have w: "\<forall>i. i \<notin> sidx ` set ?A \<longrightarrow> ?os ! i = objects g ! i"
    by (simp add: spikeTourniquet_rebuilt_objects replay_nth_other)
  have x: "\<exists>B. ?tr = ?A @ B \<and> logged B ?os \<and> objects (fst (evaluate now freeMB tv g)) = replay B ?os"
    using assms by (rule spike_then_rest)
  from p q r s t u v w x show ?thesis by blast
qed

section \<open>Traversal order of the band phase\<close>

lemma band_order:
  assumes t: "t1 = fst (snd (threeSteps (b1 (rebuildBuckets g)) (b2 (rebuildBuckets g)) (b3 (rebuildBuckets g)) d objs n))"
    "t2 = fst (snd (snd (threeSteps (b1 (rebuildBuckets g)) (b2 (rebuildBuckets g)) (b3 (rebuildBuckets g)) d objs n)))"
    "t3 = snd (snd (snd (threeSteps (b1 (rebuildBuckets g)) (b2 (rebuildBuckets g)) (b3 (rebuildBuckets g)) d objs n)))"
  shows "prefix (map sidx t1) (b1 (rebuildBuckets g))
    \<and> prefix (map sidx t2) (b2 (rebuildBuckets g))
    \<and> prefix (map sidx t3) (b3 (rebuildBuckets g))
    \<and> (t2 \<noteq> [] \<or> t3 \<noteq> [] \<longrightarrow> map sidx t1 = b1 (rebuildBuckets g))
    \<and> (t3 \<noteq> [] \<longrightarrow> map sidx t2 = b2 (rebuildBuckets g))
    \<and> (\<forall>e\<in>set (t1 @ t2 @ t3). sdelta e = d)"
proof -
  let ?r = "threeSteps (b1 (rebuildBuckets g)) (b2 (rebuildBuckets g)) (b3 (rebuildBuckets g)) d objs n"
  have "\<forall>e\<in>set (t1 @ t2 @ t3). sdelta e = d"
    using threeSteps_sdelta [of _ "b1 (rebuildBuckets g)" "b2 (rebuildBuckets g)" "b3 (rebuildBuckets g)" d objs n]
    by (simp add: t journal3_def)
  with threeSteps_order [of "b1 (rebuildBuckets g)" "b2 (rebuildBuckets g)" "b3 (rebuildBuckets g)" d objs n]
    threeSteps_cover [of "b1 (rebuildBuckets g)" "b2 (rebuildBuckets g)" "b3 (rebuildBuckets g)" d objs n]
  show ?thesis by (simp add: t)
qed

lemma prefix_bucket_priority:
  assumes "prefix (map sidx t) b" and "\<And>i. i \<in> set b \<Longrightarrow> priority (objects g ! i) = p"
  shows "\<forall>e\<in>set t. priority (objects g ! sidx e) = p"
proof
  fix e assume "e \<in> set t"
  then have "sidx e \<in> set (map sidx t)" by simp
  then have "sidx e \<in> set b" using assms(1) set_mono_prefix by blast
  then show "priority (objects g ! sidx e) = p" by (rule assms(2))
qed


lemma evaluate_journal_split:
  assumes "executes now g"
  shows "snd (evaluate now freeMB tv g) =
      spikeJournal freeMB g
      @ snd (bandPart freeMB (fst (spikePart (freeMB - lastFreeMB g)
              (rebuildBuckets (g\<lparr>lastEval := now, lastFreeMB := freeMB\<rparr>)))))"
proof -
  have "snd (spikePart (freeMB - lastFreeMB g) (rebuildBuckets (g\<lparr>lastEval := now, lastFreeMB := freeMB\<rparr>)))
      = spikeJournal freeMB g"
    by (simp add: spikePart_def spikeJournal_def rebuildBuckets_fields spikeTourniquet_time)
  then show ?thesis by (simp add: evaluate_executes(2) [OF assms])
qed

lemma band_link:
  assumes t: "t1 = fst (snd (threeSteps b1 b2 b3 d objs n))"
    "t2 = fst (snd (snd (threeSteps b1 b2 b3 d objs n)))"
    "t3 = snd (snd (snd (threeSteps b1 b2 b3 d objs n)))"
  shows "(map sidx (t1 @ t2 @ t3) = b1 @ b2 @ b3
        \<or> n \<le> int (length (filter effective (t1 @ t2 @ t3))))
    \<and> (t1 @ t2 @ t3 = [] \<or> int (length (filter effective (butlast (t1 @ t2 @ t3)))) < n)
    \<and> logged (t1 @ t2 @ t3) objs
    \<and> fst (threeSteps b1 b2 b3 d objs n) = replay (t1 @ t2 @ t3) objs"
proof -
  have j: "t1 @ t2 @ t3 = journal3 (threeSteps b1 b2 b3 d objs n)" by (simp add: t journal3_def)
  show ?thesis
    unfolding j
    using threeSteps_stop [of b1 b2 b3 d objs n] threeSteps_minimal [of b1 b2 b3 d objs n]
      threeSteps_logged [of b1 b2 b3 d objs n] threeSteps_replay [of b1 b2 b3 d objs n]
    by blast
qed

lemma spikePart_objects:
  "objects (fst (spikePart (freeMB - lastFreeMB g) (rebuildBuckets (g\<lparr>lastEval := now, lastFreeMB := freeMB\<rparr>))))
     = replay (spikeJournal freeMB g) (objects g)"
proof (cases "freeMB - lastFreeMB g \<le> - spikeThreshMB g")
  case True
  then show ?thesis
    by (simp add: spikePart_def spikeJournal_def rebuildBuckets_fields spikeTourniquet_objects
        spikeTourniquet_time)
next
  case False
  then show ?thesis by (simp add: spikePart_def spikeJournal_def rebuildBuckets_fields)
qed

lemma deescalate_order:
  assumes ex: "executes now g"
    and hi: "\<not> freeMB < targetFreeMB g - hysteresisMB g" "targetFreeMB g + hysteresisMB g < freeMB"
  shows "\<exists>tH tN tL. snd (evaluate now freeMB tv g) = spikeJournal freeMB g @ tH @ tN @ tL
      \<and> prefix (map sidx tH) (bucketHigh (rebuildBuckets g))
      \<and> prefix (map sidx tN) (bucketNorm (rebuildBuckets g))
      \<and> prefix (map sidx tL) (bucketLow (rebuildBuckets g))
      \<and> (tN \<noteq> [] \<or> tL \<noteq> [] \<longrightarrow> map sidx tH = bucketHigh (rebuildBuckets g))
      \<and> (tL \<noteq> [] \<longrightarrow> map sidx tN = bucketNorm (rebuildBuckets g))
      \<and> (\<forall>e\<in>set (tH @ tN @ tL). sdelta e = - stepGradual g)
      \<and> (\<forall>e\<in>set tH. priority (objects g ! sidx e) = High)
      \<and> (\<forall>e\<in>set tN. priority (objects g ! sidx e) = Normal)
      \<and> (\<forall>e\<in>set tL. priority (objects g ! sidx e) = Low)
      \<and> (map sidx (tH @ tN @ tL) =
            bucketHigh (rebuildBuckets g) @ bucketNorm (rebuildBuckets g) @ bucketLow (rebuildBuckets g)
          \<or> stepBudgetPerTick g \<le> int (length (filter effective (tH @ tN @ tL))))
      \<and> (tH @ tN @ tL = []
          \<or> int (length (filter effective (butlast (tH @ tN @ tL)))) < stepBudgetPerTick g)
      \<and> logged (tH @ tN @ tL) (replay (spikeJournal freeMB g) (objects g))
      \<and> objects (fst (evaluate now freeMB tv g)) =
          replay (tH @ tN @ tL) (replay (spikeJournal freeMB g) (objects g))"
proof -
  let ?g3 = "rebuildBuckets (g\<lparr>lastEval := now, lastFreeMB := freeMB\<rparr>)"
  let ?g4 = "fst (spikePart (freeMB - lastFreeMB g) ?g3)"
  let ?r = "threeSteps (bucketHigh (rebuildBuckets g)) (bucketNorm (rebuildBuckets g))
      (bucketLow (rebuildBuckets g)) (- stepGradual g) (objects ?g4) (stepBudgetPerTick g)"
  define tH where "tH = fst (snd ?r)"
  define tN where "tN = fst (snd (snd ?r))"
  define tL where "tL = snd (snd (snd ?r))"
  have bp: "bandPart freeMB ?g4 = deescalate ?g4"
    using hi by (simp add: bandPart_def spikePart_fields rebuildBuckets_fields)
  then have "snd (bandPart freeMB ?g4) = journal3 ?r"
    by (simp add: deescalate_phase phase_def spikePart_fields rebuildBuckets_fields rebuildBuckets_time)
  then have j: "snd (evaluate now freeMB tv g) = spikeJournal freeMB g @ tH @ tN @ tL"
    by (simp add: evaluate_journal_split [OF ex] journal3_def tH_def tN_def tL_def)
  have "objects (fst (bandPart freeMB ?g4)) = fst ?r"
    by (simp add: bp deescalate_phase phase_def spikePart_fields rebuildBuckets_fields rebuildBuckets_time)
  then have fin: "objects (fst (evaluate now freeMB tv g)) = fst ?r"
    by (simp only: evaluate_executes(1) [OF ex])
  note o = band_order [of tH bucketHigh g bucketNorm bucketLow "- stepGradual g" "objects ?g4" "stepBudgetPerTick g" tN tL,
      OF tH_def tN_def tL_def]
  have fin': "objects (fst (evaluate now freeMB tv g)) =
      fst (threeSteps (bucketHigh (rebuildBuckets g)) (bucketNorm (rebuildBuckets g))
        (bucketLow (rebuildBuckets g)) (- stepGradual g)
        (replay (spikeJournal freeMB g) (objects g)) (stepBudgetPerTick g))"
    by (simp only: fin spikePart_objects)
  note l = band_link [OF tH_def tN_def tL_def, unfolded spikePart_objects, folded fin']
  from o have pH: "prefix (map sidx tH) (bucketHigh (rebuildBuckets g))"
    and pN: "prefix (map sidx tN) (bucketNorm (rebuildBuckets g))"
    and pL: "prefix (map sidx tL) (bucketLow (rebuildBuckets g))" by blast+
  have "\<forall>e\<in>set tH. priority (objects g ! sidx e) = High"
    by (rule prefix_bucket_priority [OF pH]) (use bucket_priority(3) in blast)
  moreover have "\<forall>e\<in>set tN. priority (objects g ! sidx e) = Normal"
    by (rule prefix_bucket_priority [OF pN]) (use bucket_priority(2) in blast)
  moreover have "\<forall>e\<in>set tL. priority (objects g ! sidx e) = Low"
    by (rule prefix_bucket_priority [OF pL]) (use bucket_priority(1) in blast)
  ultimately show ?thesis using j o l by blast
qed

lemma escalate_order:
  assumes ex: "executes now g"
    and lo: "freeMB < targetFreeMB g - hysteresisMB g"
  shows "\<exists>tL tN tH. snd (evaluate now freeMB tv g) = spikeJournal freeMB g @ tL @ tN @ tH
      \<and> prefix (map sidx tL) (bucketLow (rebuildBuckets g))
      \<and> prefix (map sidx tN) (bucketNorm (rebuildBuckets g))
      \<and> prefix (map sidx tH) (bucketHigh (rebuildBuckets g))
      \<and> (tN \<noteq> [] \<or> tH \<noteq> [] \<longrightarrow> map sidx tL = bucketLow (rebuildBuckets g))
      \<and> (tH \<noteq> [] \<longrightarrow> map sidx tN = bucketNorm (rebuildBuckets g))
      \<and> (\<forall>e\<in>set (tL @ tN @ tH). sdelta e = stepGradual g)
      \<and> (\<forall>e\<in>set tL. priority (objects g ! sidx e) = Low)
      \<and> (\<forall>e\<in>set tN. priority (objects g ! sidx e) = Normal)
      \<and> (\<forall>e\<in>set tH. priority (objects g ! sidx e) = High)
      \<and> (map sidx (tL @ tN @ tH) =
            bucketLow (rebuildBuckets g) @ bucketNorm (rebuildBuckets g) @ bucketHigh (rebuildBuckets g)
          \<or> stepBudgetPerTick g \<le> int (length (filter effective (tL @ tN @ tH))))
      \<and> (tL @ tN @ tH = []
          \<or> int (length (filter effective (butlast (tL @ tN @ tH)))) < stepBudgetPerTick g)
      \<and> logged (tL @ tN @ tH) (replay (spikeJournal freeMB g) (objects g))
      \<and> objects (fst (evaluate now freeMB tv g)) =
          replay (tL @ tN @ tH) (replay (spikeJournal freeMB g) (objects g))"
proof -
  let ?g3 = "rebuildBuckets (g\<lparr>lastEval := now, lastFreeMB := freeMB\<rparr>)"
  let ?g4 = "fst (spikePart (freeMB - lastFreeMB g) ?g3)"
  let ?r = "threeSteps (bucketLow (rebuildBuckets g)) (bucketNorm (rebuildBuckets g))
      (bucketHigh (rebuildBuckets g)) (stepGradual g) (objects ?g4) (stepBudgetPerTick g)"
  define tL where "tL = fst (snd ?r)"
  define tN where "tN = fst (snd (snd ?r))"
  define tH where "tH = snd (snd (snd ?r))"
  have bp: "bandPart freeMB ?g4 = escalate ?g4"
    using lo by (simp add: bandPart_def spikePart_fields rebuildBuckets_fields)
  then have "snd (bandPart freeMB ?g4) = journal3 ?r"
    by (simp add: escalate_phase phase_def spikePart_fields rebuildBuckets_fields rebuildBuckets_time)
  then have j: "snd (evaluate now freeMB tv g) = spikeJournal freeMB g @ tL @ tN @ tH"
    by (simp add: evaluate_journal_split [OF ex] journal3_def tL_def tN_def tH_def)
  have "objects (fst (bandPart freeMB ?g4)) = fst ?r"
    by (simp add: bp escalate_phase phase_def spikePart_fields rebuildBuckets_fields rebuildBuckets_time)
  then have fin: "objects (fst (evaluate now freeMB tv g)) = fst ?r"
    by (simp only: evaluate_executes(1) [OF ex])
  note o = band_order [of tL bucketLow g bucketNorm bucketHigh "stepGradual g" "objects ?g4" "stepBudgetPerTick g" tN tH,
      OF tL_def tN_def tH_def]
  have fin': "objects (fst (evaluate now freeMB tv g)) =
      fst (threeSteps (bucketLow (rebuildBuckets g)) (bucketNorm (rebuildBuckets g))
        (bucketHigh (rebuildBuckets g)) (stepGradual g)
        (replay (spikeJournal freeMB g) (objects g)) (stepBudgetPerTick g))"
    by (simp only: fin spikePart_objects)
  note l = band_link [OF tL_def tN_def tH_def, unfolded spikePart_objects, folded fin']
  from o have pL: "prefix (map sidx tL) (bucketLow (rebuildBuckets g))"
    and pN: "prefix (map sidx tN) (bucketNorm (rebuildBuckets g))"
    and pH: "prefix (map sidx tH) (bucketHigh (rebuildBuckets g))" by blast+
  have "\<forall>e\<in>set tL. priority (objects g ! sidx e) = Low"
    by (rule prefix_bucket_priority [OF pL]) (use bucket_priority(1) in blast)
  moreover have "\<forall>e\<in>set tN. priority (objects g ! sidx e) = Normal"
    by (rule prefix_bucket_priority [OF pN]) (use bucket_priority(2) in blast)
  moreover have "\<forall>e\<in>set tH. priority (objects g ! sidx e) = High"
    by (rule prefix_bucket_priority [OF pH]) (use bucket_priority(3) in blast)
  ultimately show ?thesis using j o l by blast
qed

text \<open>
  Claim C8. On a tick that executes with the signal above \<open>target + hysteresis\<close>, the
  journal is the spike journal followed by the de-escalation steps on the High bucket,
  then those on the Normal bucket, then those on the Low bucket, each in bucket order
  and each with \<open>- stepGradual\<close>; a later bucket is only entered when the earlier one
  has been visited completely. The steps go on until the three buckets are exhausted
  or the budget is used up, and no step is taken once it is. Each of them is a clamped
  step on the objects as the steps before it left them, and the objects at the end of
  the tick are those at its start with the whole journal performed on them. With the
  signal below \<open>target - hysteresis\<close> the same holds for the escalation steps in the
  opposite order Low, Normal, High, with \<open>+ stepGradual\<close>.
\<close>

theorem deescalation_order:
  assumes "executes now g"
  shows "(\<not> freeMB < targetFreeMB g - hysteresisMB g \<and> targetFreeMB g + hysteresisMB g < freeMB \<longrightarrow>
      (\<exists>tH tN tL. snd (evaluate now freeMB tv g) = spikeJournal freeMB g @ tH @ tN @ tL
        \<and> prefix (map sidx tH) (bucketHigh (rebuildBuckets g))
        \<and> prefix (map sidx tN) (bucketNorm (rebuildBuckets g))
        \<and> prefix (map sidx tL) (bucketLow (rebuildBuckets g))
        \<and> (tN \<noteq> [] \<or> tL \<noteq> [] \<longrightarrow> map sidx tH = bucketHigh (rebuildBuckets g))
        \<and> (tL \<noteq> [] \<longrightarrow> map sidx tN = bucketNorm (rebuildBuckets g))
        \<and> (\<forall>e\<in>set (tH @ tN @ tL). sdelta e = - stepGradual g)
        \<and> (\<forall>e\<in>set tH. priority (objects g ! sidx e) = High)
        \<and> (\<forall>e\<in>set tN. priority (objects g ! sidx e) = Normal)
        \<and> (\<forall>e\<in>set tL. priority (objects g ! sidx e) = Low)
        \<and> (map sidx (tH @ tN @ tL) =
              bucketHigh (rebuildBuckets g) @ bucketNorm (rebuildBuckets g) @ bucketLow (rebuildBuckets g)
            \<or> stepBudgetPerTick g \<le> int (length (filter effective (tH @ tN @ tL))))
        \<and> (tH @ tN @ tL = []
            \<or> int (length (filter effective (butlast (tH @ tN @ tL)))) < stepBudgetPerTick g)
        \<and> logged (tH @ tN @ tL) (replay (spikeJournal freeMB g) (objects g))
        \<and> objects (fst (evaluate now freeMB tv g)) =
            replay (tH @ tN @ tL) (replay (spikeJournal freeMB g) (objects g))))
    \<and> (freeMB < targetFreeMB g - hysteresisMB g \<longrightarrow>
      (\<exists>tL tN tH. snd (evaluate now freeMB tv g) = spikeJournal freeMB g @ tL @ tN @ tH
        \<and> prefix (map sidx tL) (bucketLow (rebuildBuckets g))
        \<and> prefix (map sidx tN) (bucketNorm (rebuildBuckets g))
        \<and> prefix (map sidx tH) (bucketHigh (rebuildBuckets g))
        \<and> (tN \<noteq> [] \<or> tH \<noteq> [] \<longrightarrow> map sidx tL = bucketLow (rebuildBuckets g))
        \<and> (tH \<noteq> [] \<longrightarrow> map sidx tN = bucketNorm (rebuildBuckets g))
        \<and> (\<forall>e\<in>set (tL @ tN @ tH). sdelta e = stepGradual g)
        \<and> (\<forall>e\<in>set tL. priority (objects g ! sidx e) = Low)
        \<and> (\<forall>e\<in>set tN. priority (objects g ! sidx e) = Normal)
        \<and> (\<forall>e\<in>set tH. priority (objects g ! sidx e) = High)
        \<and> (map sidx (tL @ tN @ tH) =
              bucketLow (rebuildBuckets g) @ bucketNorm (rebuildBuckets g) @ bucketHigh (rebuildBuckets g)
            \<or> stepBudgetPerTick g \<le> int (length (filter effective (tL @ tN @ tH))))
        \<and> (tL @ tN @ tH = []
            \<or> int (length (filter effective (butlast (tL @ tN @ tH)))) < stepBudgetPerTick g)
        \<and> logged (tL @ tN @ tH) (replay (spikeJournal freeMB g) (objects g))
        \<and> objects (fst (evaluate now freeMB tv g)) =
            replay (tL @ tN @ tH) (replay (spikeJournal freeMB g) (objects g))))"
  using deescalate_order [OF assms, of freeMB tv] escalate_order [OF assms, of freeMB tv]
  by (intro conjI impI) (elim conjE, assumption)+

lemma runningGov_executes: "executes 1 runningGov"
  by (simp add: executes_def runningGov_eq defaultGovernor_def)

lemma midGov_executes: "executes 1 midGov"
  by code_simp

lemma spikeOnlyGov_executes: "executes 1 spikeOnlyGov"
  by code_simp

theorem deescalation_order_witness:
  "executes 1 midGov
   \<and> \<not> 1200 < targetFreeMB midGov - hysteresisMB midGov
   \<and> targetFreeMB midGov + hysteresisMB midGov < 1200
   \<and> (\<exists>tH tN tL. snd (evaluate 1 1200 True midGov) = spikeJournal 1200 midGov @ tH @ tN @ tL
        \<and> prefix (map sidx tH) (bucketHigh (rebuildBuckets midGov))
        \<and> prefix (map sidx tN) (bucketNorm (rebuildBuckets midGov))
        \<and> prefix (map sidx tL) (bucketLow (rebuildBuckets midGov))
        \<and> list_all (\<lambda>e. sdelta e = - stepGradual midGov) (tH @ tN @ tL)
        \<and> list_all (\<lambda>e. priority (objects midGov ! sidx e) = High) tH
        \<and> list_all (\<lambda>e. priority (objects midGov ! sidx e) = Normal) tN
        \<and> list_all (\<lambda>e. priority (objects midGov ! sidx e) = Low) tL
        \<and> logged (tH @ tN @ tL) (replay (spikeJournal 1200 midGov) (objects midGov))
        \<and> objects (fst (evaluate 1 1200 True midGov)) =
            replay (tH @ tN @ tL) (replay (spikeJournal 1200 midGov) (objects midGov)))
   \<and> map bias (objects midGov) = [4, 4, 4, 4, 4, 4]
   \<and> map sidx (snd (evaluate 1 1200 True midGov)) = [4, 5, 2, 3]
   \<and> map bias (objects (fst (evaluate 1 1200 True midGov))) = [4, 4, 3.5, 3.5, 3.5, 3.5]
   \<and> 700 < targetFreeMB midGov - hysteresisMB midGov
   \<and> (\<exists>tL tN tH. snd (evaluate 1 700 True midGov) = spikeJournal 700 midGov @ tL @ tN @ tH
        \<and> prefix (map sidx tL) (bucketLow (rebuildBuckets midGov))
        \<and> prefix (map sidx tN) (bucketNorm (rebuildBuckets midGov))
        \<and> prefix (map sidx tH) (bucketHigh (rebuildBuckets midGov))
        \<and> list_all (\<lambda>e. sdelta e = stepGradual midGov) (tL @ tN @ tH)
        \<and> logged (tL @ tN @ tH) (replay (spikeJournal 700 midGov) (objects midGov))
        \<and> objects (fst (evaluate 1 700 True midGov)) =
            replay (tL @ tN @ tH) (replay (spikeJournal 700 midGov) (objects midGov)))
   \<and> map sidx (snd (evaluate 1 700 True midGov)) = [0, 1, 0, 1, 2, 3]
   \<and> map bias (objects (fst (evaluate 1 700 True midGov))) = [5.75, 5.75, 4.5, 4.5, 4, 4]"
proof -
  have h: "\<not> 1200 < targetFreeMB midGov - hysteresisMB midGov"
    "targetFreeMB midGov + hysteresisMB midGov < 1200"
    "700 < targetFreeMB midGov - hysteresisMB midGov"
    by code_simp+
  note a = deescalation_order [OF midGov_executes, of 1200 True, THEN conjunct1, rule_format, OF conjI, OF h(1,2)]
  note b = deescalation_order [OF midGov_executes, of 700 True, THEN conjunct2, rule_format, OF h(3)]
  have a': "\<exists>tH tN tL. snd (evaluate 1 1200 True midGov) = spikeJournal 1200 midGov @ tH @ tN @ tL
        \<and> prefix (map sidx tH) (bucketHigh (rebuildBuckets midGov))
        \<and> prefix (map sidx tN) (bucketNorm (rebuildBuckets midGov))
        \<and> prefix (map sidx tL) (bucketLow (rebuildBuckets midGov))
        \<and> list_all (\<lambda>e. sdelta e = - stepGradual midGov) (tH @ tN @ tL)
        \<and> list_all (\<lambda>e. priority (objects midGov ! sidx e) = High) tH
        \<and> list_all (\<lambda>e. priority (objects midGov ! sidx e) = Normal) tN
        \<and> list_all (\<lambda>e. priority (objects midGov ! sidx e) = Low) tL
        \<and> logged (tH @ tN @ tL) (replay (spikeJournal 1200 midGov) (objects midGov))
        \<and> objects (fst (evaluate 1 1200 True midGov)) =
            replay (tH @ tN @ tL) (replay (spikeJournal 1200 midGov) (objects midGov))"
    using a unfolding list_all_iff by blast
  have b': "\<exists>tL tN tH. snd (evaluate 1 700 True midGov) = spikeJournal 700 midGov @ tL @ tN @ tH
        \<and> prefix (map sidx tL) (bucketLow (rebuildBuckets midGov))
        \<and> prefix (map sidx tN) (bucketNorm (rebuildBuckets midGov))
        \<and> prefix (map sidx tH) (bucketHigh (rebuildBuckets midGov))
        \<and> list_all (\<lambda>e. sdelta e = stepGradual midGov) (tL @ tN @ tH)
        \<and> logged (tL @ tN @ tH) (replay (spikeJournal 700 midGov) (objects midGov))
        \<and> objects (fst (evaluate 1 700 True midGov)) =
            replay (tL @ tN @ tH) (replay (spikeJournal 700 midGov) (objects midGov))"
    using b unfolding list_all_iff by blast
  have c: "map bias (objects midGov) = [4, 4, 4, 4, 4, 4]"
    "map sidx (snd (evaluate 1 1200 True midGov)) = [4, 5, 2, 3]"
    "map bias (objects (fst (evaluate 1 1200 True midGov))) = [4, 4, 3.5, 3.5, 3.5, 3.5]"
    "map sidx (snd (evaluate 1 700 True midGov)) = [0, 1, 0, 1, 2, 3]"
    "map bias (objects (fst (evaluate 1 700 True midGov))) = [5.75, 5.75, 4.5, 4.5, 4, 4]"
    by code_simp+
  from midGov_executes h a' b' c show ?thesis by blast
qed

theorem spike_steps_low_first_witness:
  "executes 1 spikeOnlyGov \<and> 1100 - lastFreeMB spikeOnlyGov \<le> - spikeThreshMB spikeOnlyGov
   \<and> prefix (snd (spikeTourniquet (rebuildBuckets spikeOnlyGov))) (snd (evaluate 1 1100 True spikeOnlyGov))
   \<and> prefix (map sidx (snd (spikeTourniquet (rebuildBuckets spikeOnlyGov))))
        (bucketLow (rebuildBuckets spikeOnlyGov))
   \<and> list_all (\<lambda>e. priority (objects spikeOnlyGov ! sidx e) = Low \<and> sdelta e = stepSpike spikeOnlyGov)
        (snd (spikeTourniquet (rebuildBuckets spikeOnlyGov)))
   \<and> list_all (\<lambda>e. objects (fst (spikeTourniquet (rebuildBuckets spikeOnlyGov))) ! sidx e =
          (objects spikeOnlyGov ! sidx e)\<lparr>bias := clampTo (objects spikeOnlyGov ! sidx e)
             (bias (objects spikeOnlyGov ! sidx e) + stepSpike spikeOnlyGov)\<rparr>)
        (snd (spikeTourniquet (rebuildBuckets spikeOnlyGov)))
   \<and> (\<exists>B. snd (evaluate 1 1100 True spikeOnlyGov) = snd (spikeTourniquet (rebuildBuckets spikeOnlyGov)) @ B
        \<and> logged B (objects (fst (spikeTourniquet (rebuildBuckets spikeOnlyGov))))
        \<and> objects (fst (evaluate 1 1100 True spikeOnlyGov)) =
            replay B (objects (fst (spikeTourniquet (rebuildBuckets spikeOnlyGov)))))
   \<and> map sidx (snd (spikeTourniquet (rebuildBuckets spikeOnlyGov))) = [0, 1]
   \<and> map bias (objects spikeOnlyGov) = [0, 0, 0, 0, 0, 0]
   \<and> map bias (objects (fst (evaluate 1 1100 True spikeOnlyGov))) = [1.25, 1.25, 0, 0, 0, 0]
   \<and> map bias (objects (fst (evaluate 1 700 True runningGov))) = [1.75, 1.75, 0.5, 0.5, 0, 0]"
proof -
  have h: "1100 - lastFreeMB spikeOnlyGov \<le> - spikeThreshMB spikeOnlyGov"
    by code_simp
  have c: "map sidx (snd (spikeTourniquet (rebuildBuckets spikeOnlyGov))) = [0, 1]"
    "map bias (objects spikeOnlyGov) = [0, 0, 0, 0, 0, 0]"
    "map bias (objects (fst (evaluate 1 1100 True spikeOnlyGov))) = [1.25, 1.25, 0, 0, 0, 0]"
    "map bias (objects (fst (evaluate 1 700 True runningGov))) = [1.75, 1.75, 0.5, 0.5, 0, 0]"
    by code_simp+
  from spike_steps_low_first [OF spikeOnlyGov_executes h, of True] spikeOnlyGov_executes h c
  show ?thesis unfolding list_all_iff by blast
qed

theorem buckets_partition_sorted_witness:
  "executes 1 runningGov
   \<and> bucketLow (fst (evaluate 1 700 True runningGov)) = bucketLow (rebuildBuckets runningGov)
   \<and> bucketNorm (fst (evaluate 1 700 True runningGov)) = bucketNorm (rebuildBuckets runningGov)
   \<and> bucketHigh (fst (evaluate 1 700 True runningGov)) = bucketHigh (rebuildBuckets runningGov)
   \<and> distinct (bucketLow (rebuildBuckets runningGov) @ bucketNorm (rebuildBuckets runningGov)
        @ bucketHigh (rebuildBuckets runningGov))
   \<and> sorted_wrt (\<lambda>a b. estMB (objects runningGov ! b) \<le> estMB (objects runningGov ! a))
        (bucketLow (rebuildBuckets runningGov))"
  using buckets_partition_sorted [of runningGov 1 700 True] runningGov_executes by blast

section \<open>The shared budget\<close>

text \<open>
  Claim C1. The claim bounds the effective writes of one tick by
  \<open>stepBudgetPerTick\<close>, spike and escalation drawing on one budget. In the program
  \<^verbatim>\<open>spikeTourniquet\<close> and \<^verbatim>\<open>escalate\<close> each start from a fresh copy of the budget
  (see \<open>evaluate_effective_bound\<close>): on the demo objects, after a first reading of
  1024 MB, a reading of 700 MB gives a tick with six effective writes (two spike steps
  on the Low objects, then four escalation steps) against a budget of four. When the
  Low objects start one unit below their upper bound, the spike steps take them to the
  bound, the escalation steps on them change nothing and cost nothing, and the same
  tick changes all six objects.
\<close>

theorem spike_tick_exceeds_budget:
  "length (filter effective (snd (evaluate 1 700 True runningGov))) = 6
   \<and> stepBudgetPerTick runningGov = 4
   \<and> map bias (objects (fst (evaluate 1 700 True runningGov))) = [1.75, 1.75, 0.5, 0.5, 0, 0]
   \<and> changedObjects (objects nearMaxGov) (objects (fst (evaluate 1 700 True nearMaxGov))) = 6
   \<and> stepBudgetPerTick nearMaxGov = 4"
  by code_simp

end
